theory Spec2Isabelle
  imports Main "HOL-Library.Char_ord" "HOL-Library.List_Lexorder"
begin

section \<open>Python strings and exceptions\<close>

text \<open>
  Strings are \<open>char list\<close>; the model covers ASCII text, where Python's \<open>str.lower\<close>,
  \<open>str.strip\<close> and the comparison of \<open>sorted\<close> act on single bytes. Every exception the
  modelled code can raise is a value of \<open>exn\<close>.
\<close>

datatype exn = FindError | ValueError | ZeroDivisionError | IndexError | KeyError

definition startswith :: "string \<Rightarrow> string \<Rightarrow> bool" where
  "startswith s p = (take (length p) s = p)"

definition endswith :: "string \<Rightarrow> string \<Rightarrow> bool" where
  "endswith s p = (length p \<le> length s \<and> drop (length s - length p) s = p)"


definition ascii_lowercase :: string where
  "ascii_lowercase = ''abcdefghijklmnopqrstuvwxyz''"

definition ascii_uppercase :: string where
  "ascii_uppercase = ''ABCDEFGHIJKLMNOPQRSTUVWXYZ''"

definition lower_char :: "char \<Rightarrow> char" where
  "lower_char c = (case map_of (zip ascii_uppercase ascii_lowercase) c of
                     Some d \<Rightarrow> d | None \<Rightarrow> c)"

definition lower :: "string \<Rightarrow> string" where
  "lower s = map lower_char s"

definition isalpha :: "char \<Rightarrow> bool" where
  "isalpha c = (c \<in> set (ascii_lowercase @ ascii_uppercase))"




text \<open>\<open>s.split(c, 1)\<close> for a string that contains \<open>c\<close>: the text before and after the first
  occurrence.\<close>

definition split_first :: "char \<Rightarrow> string \<Rightarrow> string \<times> string" where
  "split_first c s = (takeWhile (\<lambda>x. x \<noteq> c) s, drop 1 (dropWhile (\<lambda>x. x \<noteq> c) s))"

text \<open>\<open>xs[:n]\<close>: a negative stop counts from the end of the list.\<close>

definition slice_to :: "'a list \<Rightarrow> int \<Rightarrow> 'a list" where
  "slice_to xs n = (if 0 \<le> n then take (nat n) xs else take (length xs - nat (- n)) xs)"

section \<open>\<open>urllib.parse.urlparse\<close>\<close>

text \<open>
  The library function the repository parses every URL with, modelled after CPython 3.10
  (\<open>urlsplit\<close> followed by the parameter split of \<open>urlparse\<close>) on ASCII input: leading C0
  control characters and spaces are stripped, tab, CR and LF removed, the scheme is
  lower-cased, and a network location with an unbalanced square bracket raises
  \<open>ValueError\<close>.
\<close>

record ParseResult =
  scheme :: string
  netloc :: string
  path :: string
  params :: string
  query :: string
  fragment :: string

definition scheme_chars :: string where
  "scheme_chars = ascii_lowercase @ ascii_uppercase @ ''0123456789'' @ ''+-.''"

definition uses_params :: "string list" where
  "uses_params = ['''', ''ftp'', ''hdl'', ''prospero'', ''http'', ''imap'', ''https'', ''shttp'',
                  ''rtsp'', ''rtsps'', ''rtspu'', ''sip'', ''sips'', ''mms'', ''sftp'', ''tel'']"

definition splitnetloc :: "string \<Rightarrow> string \<times> string" where
  "splitnetloc url =
     (let rest = drop 2 url;
          host = takeWhile (\<lambda>c. c \<notin> set ''/?#'') rest
      in (host, drop (length host) rest))"

definition splitparams :: "string \<Rightarrow> string \<times> string" where
  "splitparams url =
     (if CHR ''/'' \<in> set url then
        (let last_seg = rev (takeWhile (\<lambda>c. c \<noteq> CHR ''/'') (rev url));
             head = take (length url - length last_seg) url
         in if CHR '';'' \<in> set last_seg
            then (head @ fst (split_first CHR '';'' last_seg), snd (split_first CHR '';'' last_seg))
            else (url, ''''))
      else split_first CHR '';'' url)"

definition split_scheme :: "string \<Rightarrow> string \<times> string" where
  "split_scheme url =
     (let pre = takeWhile (\<lambda>c. c \<noteq> CHR '':'') url
      in if CHR '':'' \<in> set url \<and> pre \<noteq> [] \<and> isalpha (hd pre) \<and> (\<forall>c \<in> set pre. c \<in> set scheme_chars)
         then (lower pre, drop (length pre + 1) url)
         else ('''', url))"

definition urlparse :: "string \<Rightarrow> exn + ParseResult" where
  "urlparse url0 =
     (let url1 = dropWhile (\<lambda>c. of_char c \<le> (32::nat)) url0;
          url2 = filter (\<lambda>c. c \<notin> set [CHR 0x09, CHR 0x0D, CHR 0x0A]) url1;
          (sch, url3) = split_scheme url2;
          (nl, url4) = (if take 2 url3 = ''//'' then splitnetloc url3 else ('''', url3))
      in if (CHR ''['' \<in> set nl \<and> CHR '']'' \<notin> set nl) \<or> (CHR '']'' \<in> set nl \<and> CHR ''['' \<notin> set nl)
         then Inl ValueError
         else
           (let (url5, frag) = (if CHR ''#'' \<in> set url4 then split_first CHR ''#'' url4 else (url4, ''''));
                (url6, qry) = (if CHR ''?'' \<in> set url5 then split_first CHR ''?'' url5 else (url5, ''''));
                (url7, prm) = (if sch \<in> set uses_params \<and> CHR '';'' \<in> set url6
                               then splitparams url6 else (url6, ''''))
            in Inr \<lparr>scheme = sch, netloc = nl, path = url7, params = prm, query = qry,
                     fragment = frag\<rparr>))"

section \<open>The URL finder: data model\<close>

text \<open>
  \<open>FindOptions\<close> and \<open>FindDoc\<close> are the dataclasses of \<open>finder/schemas.py\<close>; Python integers
  are unbounded, hence \<open>int\<close>. \<open>FinderService\<close> holds the attributes that \<open>__init__\<close> and
  \<open>find_urls\<close> assign: they live on the instance, so every method takes the instance and
  returns it updated. The attribute \<open>domain\<close> does not exist before \<open>find_urls\<close> sets it.
\<close>

record FindOptions =
  max_depth :: int
  max_urls :: int
  batch_size :: int
  proxy :: "string option"
  excluded_extensions :: "string list option"
  require_same_domain :: "bool option"

definition FindOptions_default :: FindOptions where
  "FindOptions_default =
     \<lparr>max_depth = 12, max_urls = 50000, batch_size = 100, proxy = None,
      excluded_extensions = None, require_same_domain = None\<rparr>"

record FindDoc =
  input_url :: string
  homepage_url :: string
  doc_domain :: string
  urls :: "string set"
  total_found :: int
  doc_max_depth_reached :: int
  successful_crawls :: int
  failed_crawls :: int

record FinderService =
  successful_urls :: "string set"
  failed_urls :: "string set"
  crawled_urls :: "string set"
  error_details :: "(string \<times> string) list"
  proxy_url :: "string option"
  max_depth_reached :: int
  domain :: "string option"

definition FinderService_init :: FinderService where
  "FinderService_init =
     \<lparr>successful_urls = {}, failed_urls = {}, crawled_urls = {}, error_details = [],
      proxy_url = None, max_depth_reached = 0, domain = None\<rparr>"

text \<open>
  What the crawl sees of the outside world. \<open>http_get url proxy\<close> is the outcome of
  \<open>session.get\<close> followed by \<open>response.text()\<close> and the HTML parse: a status with the
  \<open>href\<close> values of the anchor tags of the body, a timeout, or any other exception with its
  message. \<open>urljoin\<close> is the library's relative-URL resolution (\<open>Inl\<close> when it raises),
  \<open>list_of_set\<close> the order in which Python enumerates \<open>set(new_urls)\<close>. The constants
  \<open>EXCLUDED_EXTENSIONS\<close> and \<open>REQUIRE_PROXY\<close> come from \<open>finder/config.py\<close>, and
  \<open>get_proxy_from_env\<close> reads the process environment.
\<close>

datatype response = Response nat "string list" | TimeoutError | Exception string

record world =
  http_get :: "string \<Rightarrow> string option \<Rightarrow> response"
  urljoin :: "string \<Rightarrow> string \<Rightarrow> string + string"
  list_of_set :: "string list \<Rightarrow> string list"
  EXCLUDED_EXTENSIONS :: "string list"
  REQUIRE_PROXY :: bool
  get_proxy_from_env :: "string option"

datatype status = success | failed | error

record crawl_result =
  url :: string
  status :: status
  new_urls :: "string list"
  error_msg :: "string option"

section \<open>\<open>finder/utils.py\<close>\<close>

definition validate_input_url :: "string \<Rightarrow> string" where
  "validate_input_url u =
     (if \<not> (startswith u ''http://'' \<or> startswith u ''https://'') then ''https://'' @ u else u)"

definition extract_homepage_from_url :: "string \<Rightarrow> exn + string" where
  "extract_homepage_from_url u =
     (case urlparse (if startswith u ''http://'' \<or> startswith u ''https://'' then u
                     else ''https://'' @ u) of
        Inl e \<Rightarrow> Inl e
      | Inr parsed \<Rightarrow> Inr (scheme parsed @ ''://'' @ netloc parsed))"

text \<open>Python's \<open>a or b\<close> on optional strings: \<open>None\<close> and the empty string are falsy.\<close>

definition truthy :: "string option \<Rightarrow> bool" where
  "truthy a = (case a of None \<Rightarrow> False | Some s \<Rightarrow> s \<noteq> [])"

definition por :: "string option \<Rightarrow> string option \<Rightarrow> string option" where
  "por a b = (if truthy a then a else b)"

section \<open>URL filters\<close>

text \<open>\<open>FinderService._is_valid_domain_url\<close>, the filter \<open>_crawl_url\<close> applies to every link.\<close>

definition is_valid_domain_url :: "world \<Rightarrow> FinderService \<Rightarrow> string \<Rightarrow> bool" where
  "is_valid_domain_url w self u =
     (case urlparse u of
        Inl e \<Rightarrow> False
      | Inr parsed \<Rightarrow>
          (case domain self of
             None \<Rightarrow> False
           | Some d \<Rightarrow>
               if netloc parsed \<noteq> d then False
               else if \<exists>ext \<in> set (EXCLUDED_EXTENSIONS w). endswith (lower (path parsed)) ext
               then False
               else True))"

text \<open>\<open>URLProcessorService._is_valid_url_for_domain\<close>, the filter of \<open>extract_links\<close>.\<close>

definition is_valid_url_for_domain ::
  "world \<Rightarrow> string \<Rightarrow> string \<Rightarrow> FindOptions option \<Rightarrow> bool" where
  "is_valid_url_for_domain w u target options =
     (case urlparse u of
        Inl e \<Rightarrow> False
      | Inr parsed \<Rightarrow>
          (let excluded_exts =
                 (case options of
                    None \<Rightarrow> EXCLUDED_EXTENSIONS w
                  | Some opts \<Rightarrow>
                      (case excluded_extensions opts of
                         None \<Rightarrow> EXCLUDED_EXTENSIONS w
                       | Some exts \<Rightarrow> if exts \<noteq> [] then exts else EXCLUDED_EXTENSIONS w));
               require =
                 (case options of
                    None \<Rightarrow> True
                  | Some opts \<Rightarrow> (case require_same_domain opts of None \<Rightarrow> True | Some b \<Rightarrow> b));
               domain_valid = (if require then netloc parsed = target else True)
           in domain_valid \<and> scheme parsed \<in> set [''http'', ''https'']
              \<and> \<not> (\<exists>ext \<in> set excluded_exts. endswith (lower u) ext)))"

section \<open>\<open>FinderService._deduplicate_urls\<close>\<close>

text \<open>
  The first loop drops fragment URLs, processed URLs and repeats; \<open>unique_urls\<close> and
  \<open>seen_urls\<close> are the two accumulators of the source. \<open>urlparse\<close> is called outside any
  \<open>try\<close>, so its \<open>ValueError\<close> leaves the method.
\<close>

fun first_pass :: "string set \<Rightarrow> string list \<Rightarrow> string list \<Rightarrow> string set \<Rightarrow> exn + string list" where
  "first_pass all_processed [] unique_urls seen_urls = Inr unique_urls"
| "first_pass all_processed (u # rest) unique_urls seen_urls =
     (case urlparse u of
        Inl e \<Rightarrow> Inl e
      | Inr parsed \<Rightarrow>
          if fragment parsed \<noteq> [] then first_pass all_processed rest unique_urls seen_urls
          else if u \<notin> all_processed \<and> u \<notin> seen_urls
          then first_pass all_processed rest (unique_urls @ [u]) (insert u seen_urls)
          else first_pass all_processed rest unique_urls seen_urls)"

definition path_key :: "ParseResult \<Rightarrow> string" where
  "path_key parsed =
     netloc parsed @ path parsed
       @ (if query parsed \<noteq> [] then ''?'' @ query parsed else [])
       @ (if fragment parsed \<noteq> [] then ''#'' @ fragment parsed else [])"

text \<open>
  \<open>url_groups\<close> is a Python dict, which keeps its keys in insertion order: an association
  list. \<open>groups_append\<close> is \<open>url_groups[path_key].append(url)\<close> after the entry was created
  at the end when the key was new.
\<close>

fun groups_append :: "string \<Rightarrow> string \<Rightarrow> (string \<times> string list) list \<Rightarrow> (string \<times> string list) list" where
  "groups_append k u [] = [(k, [u])]"
| "groups_append k u ((k', g) # rest) =
     (if k' = k then (k', g @ [u]) # rest else (k', g) # groups_append k u rest)"

fun second_pass :: "string list \<Rightarrow> (string \<times> string list) list \<Rightarrow> exn + (string \<times> string list) list" where
  "second_pass [] url_groups = Inr url_groups"
| "second_pass (u # rest) url_groups =
     (case urlparse u of
        Inl e \<Rightarrow> Inl e
      | Inr parsed \<Rightarrow> second_pass rest (groups_append (path_key parsed) u url_groups))"

definition index0 :: "'a list \<Rightarrow> exn + 'a" where
  "index0 xs = (case xs of [] \<Rightarrow> Inl IndexError | x # _ \<Rightarrow> Inr x)"

definition choose_url :: "string list \<Rightarrow> exn + string" where
  "choose_url url_group =
     (if length url_group = 1 then index0 url_group
      else
        (let https_urls = filter (\<lambda>u. startswith u ''https://'') url_group;
             http_urls = filter (\<lambda>u. startswith u ''http://'') url_group
         in if https_urls \<noteq> [] then index0 https_urls
            else if http_urls \<noteq> [] then index0 http_urls
            else index0 url_group))"

fun third_pass :: "(string \<times> string list) list \<Rightarrow> string list \<Rightarrow> exn + string list" where
  "third_pass [] final_urls = Inr final_urls"
| "third_pass ((k, url_group) # rest) final_urls =
     (case choose_url url_group of
        Inl e \<Rightarrow> Inl e
      | Inr u \<Rightarrow> third_pass rest (final_urls @ [u]))"

definition deduplicate_urls :: "FinderService \<Rightarrow> string list \<Rightarrow> exn + string list" where
  "deduplicate_urls self urls_list =
     (let all_processed = successful_urls self \<union> failed_urls self
      in case first_pass all_processed urls_list [] {} of
           Inl e \<Rightarrow> Inl e
         | Inr unique_urls \<Rightarrow>
             (case second_pass unique_urls [] of
                Inl e \<Rightarrow> Inl e
              | Inr url_groups \<Rightarrow> third_pass url_groups []))"

section \<open>Fetching one URL and one batch\<close>

fun str_nat :: "nat \<Rightarrow> string" where
  "str_nat n =
     (if n < 10 then [''0123456789'' ! n]
      else str_nat (n div 10) @ [''0123456789'' ! (n mod 10)])"

declare str_nat.simps [simp del]

text \<open>
  The loop of \<open>_crawl_url\<close> over the anchors: an empty \<open>href\<close> is skipped, every other one
  is resolved against the page URL and kept when \<open>_is_valid_domain_url\<close> accepts it. An
  exception of \<open>urljoin\<close> ends the loop.
\<close>

fun extract_new_urls :: "world \<Rightarrow> FinderService \<Rightarrow> string \<Rightarrow> string list \<Rightarrow> string + string list" where
  "extract_new_urls w self u [] = Inr []"
| "extract_new_urls w self u (href # hrefs) =
     (if href = [] then extract_new_urls w self u hrefs
      else
        (case urljoin w u href of
           Inl msg \<Rightarrow> Inl msg
         | Inr absolute_url \<Rightarrow>
             (case extract_new_urls w self u hrefs of
                Inl msg \<Rightarrow> Inl msg
              | Inr others \<Rightarrow>
                  Inr (if is_valid_domain_url w self absolute_url then absolute_url # others
                       else others))))"

text \<open>
  \<open>_crawl_url\<close>: the whole body is inside \<open>try\<close>, with \<open>asyncio.TimeoutError\<close> and then every
  other \<open>Exception\<close> turned into a \<open>failed\<close> result, so the method always returns a result.
\<close>

definition crawl_url :: "world \<Rightarrow> FinderService \<Rightarrow> string \<Rightarrow> int \<Rightarrow> crawl_result" where
  "crawl_url w self u depth =
     (case http_get w u (por (proxy_url self) (get_proxy_from_env w)) of
        TimeoutError \<Rightarrow>
          \<lparr>url = u, status = failed, new_urls = [], error_msg = Some ''Timeout''\<rparr>
      | Exception msg \<Rightarrow>
          \<lparr>url = u, status = failed, new_urls = [], error_msg = Some msg\<rparr>
      | Response code hrefs \<Rightarrow>
          if code \<noteq> 200
          then \<lparr>url = u, status = failed, new_urls = [],
                error_msg = Some (''HTTP '' @ str_nat code)\<rparr>
          else
            (case extract_new_urls w self u hrefs of
               Inl msg \<Rightarrow> \<lparr>url = u, status = failed, new_urls = [], error_msg = Some msg\<rparr>
             | Inr found \<Rightarrow>
                 \<lparr>url = u, status = success, new_urls = list_of_set w found,
                  error_msg = None\<rparr>))"

text \<open>
  \<open>_process_batch\<close> gathers one result per URL of the batch, in the order of the batch. As
  \<open>_crawl_url\<close> never raises, the two handlers that would build an \<open>error\<close> result are
  never entered; the semaphore only bounds how many fetches run at once.
\<close>

definition process_batch :: "world \<Rightarrow> FinderService \<Rightarrow> string list \<Rightarrow> int \<Rightarrow> crawl_result list" where
  "process_batch w self batch depth = map (\<lambda>u. crawl_url w self u depth) batch"

section \<open>One depth of the crawl\<close>

text \<open>The inner loop over \<open>result["new_urls"]\<close>.\<close>

fun collect_new_urls :: "FinderService \<Rightarrow> string list \<Rightarrow> string list \<Rightarrow> string list" where
  "collect_new_urls self [] batch_new_urls = batch_new_urls"
| "collect_new_urls self (new_url # rest) batch_new_urls =
     (if new_url \<notin> successful_urls self \<and> new_url \<notin> failed_urls self
         \<and> new_url \<notin> set batch_new_urls
      then collect_new_urls self rest (batch_new_urls @ [new_url])
      else collect_new_urls self rest batch_new_urls)"

text \<open>The loop over \<open>batch_results\<close>: the instance and \<open>batch_new_urls\<close> are updated.\<close>

fun process_results :: "crawl_result list \<Rightarrow> string list \<Rightarrow> FinderService \<Rightarrow> string list \<times> FinderService" where
  "process_results [] batch_new_urls self = (batch_new_urls, self)"
| "process_results (r # rest) batch_new_urls self =
     (if status r = success then
        (let self1 = self\<lparr>successful_urls := insert (url r) (successful_urls self)\<rparr>
         in process_results rest (collect_new_urls self1 (new_urls r) batch_new_urls) self1)
      else
        process_results rest batch_new_urls
          (self\<lparr>failed_urls := insert (url r) (failed_urls self)\<rparr>))"

function chunks :: "nat \<Rightarrow> 'a list \<Rightarrow> 'a list list" where
  "chunks n xs = (if n = 0 \<or> xs = [] then [] else take n xs # chunks n (drop n xs))"
  by pat_completeness auto
termination
  by (relation "measure (\<lambda>(n, xs). length xs)") auto

declare chunks.simps [simp del]

text \<open>
  \<open>[urls_to_crawl[i : i + batch_size] for i in range(0, len(urls_to_crawl), batch_size)]\<close>:
  \<open>range\<close> raises \<open>ValueError\<close> for a step of zero and is empty for a negative step.
\<close>

definition make_batches :: "string list \<Rightarrow> int \<Rightarrow> exn + string list list" where
  "make_batches urls_to_crawl bs =
     (if bs = 0 then Inl ValueError
      else if bs < 0 then Inr []
      else Inr (chunks (nat bs) urls_to_crawl))"

text \<open>The loop over the batches, left by \<open>break\<close> once the target is reached.\<close>

fun batch_loop :: "world \<Rightarrow> int \<Rightarrow> int \<Rightarrow> string list list \<Rightarrow> string list \<Rightarrow> FinderService
                   \<Rightarrow> string list \<times> FinderService" where
  "batch_loop w depth mx [] next_depth_urls self = (next_depth_urls, self)"
| "batch_loop w depth mx (batch # rest) next_depth_urls self =
     (let batch_results = process_batch w self batch depth;
          (batch_new_urls, self1) = process_results batch_results [] self;
          next1 = next_depth_urls @ batch_new_urls
      in if int (card (successful_urls self1)) \<ge> mx then (next1, self1)
         else batch_loop w depth mx rest next1 self1)"

definition process_depth_with_progress ::
  "world \<Rightarrow> FinderService \<Rightarrow> string list \<Rightarrow> int \<Rightarrow> int \<Rightarrow> int
   \<Rightarrow> (exn + string list) \<times> FinderService" where
  "process_depth_with_progress w self urls_to_crawl current_depth bs mx =
     (case make_batches urls_to_crawl bs of
        Inl e \<Rightarrow> (Inl e, self)
      | Inr batches \<Rightarrow>
          (let (next_depth_urls, self1) = batch_loop w current_depth mx batches [] self
           in (Inr (slice_to next_depth_urls (mx - int (card (successful_urls self1)))), self1)))"

section \<open>\<open>FinderService.find_urls\<close>\<close>

text \<open>
  The loop \<open>for depth in range(0, max_depth + 1)\<close> over the list of the depths still to
  run. It ends when the list is exhausted, by the first \<open>break\<close> (no URL for this depth),
  by the second (target reached), or by an exception.
\<close>

fun depth_loop :: "world \<Rightarrow> string \<Rightarrow> int \<Rightarrow> int \<Rightarrow> int list \<Rightarrow> string list \<Rightarrow> FinderService
                   \<Rightarrow> (exn + unit) \<times> FinderService" where
  "depth_loop w hp bs mx [] next_depth_urls self = (Inr (), self)"
| "depth_loop w hp bs mx (depth # depths) next_depth_urls self =
     (let self1 = self\<lparr>max_depth_reached := depth\<rparr>
      in if depth \<noteq> 0 \<and> next_depth_urls = [] then (Inr (), self1)
         else
           (case (if depth = 0 then Inr [hp] else deduplicate_urls self1 next_depth_urls) of
              Inl e \<Rightarrow> (Inl e, self1)
            | Inr urls_to_crawl \<Rightarrow>
                (case process_depth_with_progress w self1 urls_to_crawl depth bs mx of
                   (Inl e, self2) \<Rightarrow> (Inl e, self2)
                 | (Inr next1, self2) \<Rightarrow>
                     if int (card (successful_urls self2)) \<ge> mx then (Inr (), self2)
                     else depth_loop w hp bs mx depths next1 self2)))"

text \<open>
  \<open>_display_final_results\<close> only logs, but it computes
  \<open>len(self.successful_urls) / max_urls\<close>, which raises for a target of zero.
\<close>

definition display_final_results :: "FinderService \<Rightarrow> int \<Rightarrow> exn + unit" where
  "display_final_results self mx = (if mx = 0 then Inl ZeroDivisionError else Inr ())"

definition find_urls ::
  "world \<Rightarrow> FinderService \<Rightarrow> string \<Rightarrow> FindOptions option \<Rightarrow> (exn + FindDoc) \<times> FinderService" where
  "find_urls w self inp options_arg =
     (let options = (case options_arg of None \<Rightarrow> FindOptions_default | Some opts \<Rightarrow> opts);
          self1 = self\<lparr>proxy_url := por (proxy options) (get_proxy_from_env w)\<rparr>
      in if REQUIRE_PROXY w \<and> \<not> truthy (proxy_url self1) then (Inl FindError, self1)
         else
           (case extract_homepage_from_url (validate_input_url inp) of
              Inl e \<Rightarrow> (Inl e, self1)
            | Inr hp \<Rightarrow>
                (case urlparse hp of
                   Inl e \<Rightarrow> (Inl e, self1)
                 | Inr parsed \<Rightarrow>
                     (let self2 = self1\<lparr>domain := Some (netloc parsed)\<rparr>;
                          self3 = self2\<lparr>successful_urls := insert hp (successful_urls self2)\<rparr>
                      in case depth_loop w hp (batch_size options) (max_urls options)
                                [0..max_depth options] [] self3 of
                           (Inl e, self4) \<Rightarrow> (Inl e, self4)
                         | (Inr _, self4) \<Rightarrow>
                             (case display_final_results self4 (max_urls options) of
                                Inl e \<Rightarrow> (Inl e, self4)
                              | Inr _ \<Rightarrow>
                                  (Inr \<lparr>input_url = inp, homepage_url = hp,
                                        doc_domain = netloc parsed,
                                        urls = successful_urls self4,
                                        total_found = int (card (successful_urls self4)),
                                        doc_max_depth_reached = max_depth_reached self4,
                                        successful_crawls = int (card (successful_urls self4)),
                                        failed_crawls = int (length (error_details self4))\<rparr>,
                                   self4))))))"

section \<open>\<open>query_universe\<close>: priority selection\<close>

























section \<open>Depth boundaries and example sites\<close>

text \<open>
  \<open>depth_boundaries\<close> follows \<open>depth_loop\<close> and lists the instance as it stands at the end
  of each iteration the loop enters; \<open>find_urls_boundaries\<close> does so for a whole call of
  \<open>find_urls\<close>. They change nothing of the crawl: the last listed state is the state the
  loop ends in (\<open>depth_loop_final_state\<close> below).
\<close>

fun depth_boundaries :: "world \<Rightarrow> string \<Rightarrow> int \<Rightarrow> int \<Rightarrow> int list \<Rightarrow> string list \<Rightarrow> FinderService
                         \<Rightarrow> FinderService list" where
  "depth_boundaries w hp bs mx [] next_depth_urls self = []"
| "depth_boundaries w hp bs mx (depth # depths) next_depth_urls self =
     (let self1 = self\<lparr>max_depth_reached := depth\<rparr>
      in if depth \<noteq> 0 \<and> next_depth_urls = [] then [self1]
         else
           (case (if depth = 0 then Inr [hp] else deduplicate_urls self1 next_depth_urls) of
              Inl e \<Rightarrow> [self1]
            | Inr urls_to_crawl \<Rightarrow>
                (case process_depth_with_progress w self1 urls_to_crawl depth bs mx of
                   (Inl e, self2) \<Rightarrow> [self2]
                 | (Inr next1, self2) \<Rightarrow>
                     if int (card (successful_urls self2)) \<ge> mx then [self2]
                     else self2 # depth_boundaries w hp bs mx depths next1 self2)))"

definition find_urls_boundaries ::
  "world \<Rightarrow> FinderService \<Rightarrow> string \<Rightarrow> FindOptions option \<Rightarrow> FinderService list" where
  "find_urls_boundaries w self inp options_arg =
     (let options = (case options_arg of None \<Rightarrow> FindOptions_default | Some opts \<Rightarrow> opts);
          self1 = self\<lparr>proxy_url := por (proxy options) (get_proxy_from_env w)\<rparr>
      in if REQUIRE_PROXY w \<and> \<not> truthy (proxy_url self1) then []
         else
           (case extract_homepage_from_url (validate_input_url inp) of
              Inl e \<Rightarrow> []
            | Inr hp \<Rightarrow>
                (case urlparse hp of
                   Inl e \<Rightarrow> []
                 | Inr parsed \<Rightarrow>
                     (let self2 = self1\<lparr>domain := Some (netloc parsed)\<rparr>;
                          self3 = self2\<lparr>successful_urls := insert hp (successful_urls self2)\<rparr>
                      in depth_boundaries w hp (batch_size options) (max_urls options)
                           [0..max_depth options] [] self3))))"

text \<open>
  Worlds for the examples: no proxy is required, the pages give absolute links, which
  \<open>urljoin\<close> returns as they are, and \<open>set(new_urls)\<close> is enumerated in the order of first
  occurrence.
\<close>

definition example_world :: "(string \<Rightarrow> string option \<Rightarrow> response) \<Rightarrow> world" where
  "example_world web =
     \<lparr>http_get = web, urljoin = (\<lambda>base href. Inr href), list_of_set = remdups,
      EXCLUDED_EXTENSIONS = [''.pdf'', ''.jpg'', ''.png'', ''.zip''], REQUIRE_PROXY = False,
      get_proxy_from_env = None\<rparr>"

definition web_a :: "string \<Rightarrow> string option \<Rightarrow> response" where
  "web_a u p =
     (if u = ''https://a.com''
      then Response 200 [''https://a.com/x'', ''http://a.com/x'', ''https://a.com/y#f'',
                         ''https://b.com/z'', ''https://a.com/p.pdf'', ''https://a.com/q'']
      else if u = ''https://a.com/x'' then Response 200 [''https://a.com/r'', ''https://a.com'']
      else if u = ''https://a.com/q'' then Response 404 [''https://a.com/s'']
      else TimeoutError)"



definition at_a_com :: FinderService where
  "at_a_com = FinderService_init\<lparr>domain := Some ''a.com''\<rparr>"

definition small_options :: FindOptions where
  "small_options =
     \<lparr>max_depth = 3, max_urls = 100, batch_size = 10, proxy = None,
      excluded_extensions = None, require_same_domain = None\<rparr>"

definition depth0_only :: FindOptions where
  "depth0_only = small_options\<lparr>max_depth := 0\<rparr>"

section \<open>Canonical keys and representatives\<close>

text \<open>
  The vocabulary of the specification's Deduplicator: \<open>key_of\<close> is the canonical key of a
  URL that parses (the \<open>path_key\<close> of the second loop), \<open>plain_url\<close> holds of a URL that
  parses and has no fragment, and \<open>representative\<close> is the member of a group that is kept:
  the first that starts with \<open>https://\<close> if there is one, else the first that starts with
  \<open>http://\<close> if there is one, else the first member.
\<close>

definition key_of :: "string \<Rightarrow> string" where
  "key_of u = (case urlparse u of Inl e \<Rightarrow> [] | Inr parsed \<Rightarrow> path_key parsed)"

definition plain_url :: "string \<Rightarrow> bool" where
  "plain_url u = (case urlparse u of Inl e \<Rightarrow> False | Inr parsed \<Rightarrow> fragment parsed = [])"

definition representative :: "string list \<Rightarrow> string" where
  "representative g =
     (if filter (\<lambda>u. startswith u ''https://'') g \<noteq> []
      then hd (filter (\<lambda>u. startswith u ''https://'') g)
      else if filter (\<lambda>u. startswith u ''http://'') g \<noteq> []
      then hd (filter (\<lambda>u. startswith u ''http://'') g)
      else hd g)"

definition web_two_sites :: "string \<Rightarrow> string option \<Rightarrow> response" where
  "web_two_sites u p =
     (if u = ''https://a.com'' then Response 200 [''https://a.com/x'']
      else if u = ''https://b.com'' then Response 200 [''https://b.com/y'']
      else TimeoutError)"

section \<open>Fetch outcomes\<close>

lemma crawl_url_url: "url (crawl_url w self u d) = u"
  by (simp add: crawl_url_def split: response.splits sum.splits)

lemma crawl_url_not_success_no_links:
  "status (crawl_url w self u d) \<noteq> success \<Longrightarrow> new_urls (crawl_url w self u d) = []"
  by (simp add: crawl_url_def split: response.splits sum.splits if_splits)

lemma crawl_url_status: "status (crawl_url w self u d) \<noteq> error"
  by (simp add: crawl_url_def split: response.splits sum.splits)


lemma process_results_successful:
  "successful_urls (snd (process_results rs acc st)) =
     successful_urls st \<union> url ` {r \<in> set rs. status r = success}"
  by (induction rs arbitrary: acc st) (auto simp: Let_def)

lemma process_results_failed:
  "failed_urls (snd (process_results rs acc st)) =
     failed_urls st \<union> url ` {r \<in> set rs. status r \<noteq> success}"
  by (induction rs arbitrary: acc st) (auto simp: Let_def)

lemma process_results_frame:
  "max_depth_reached (snd (process_results rs acc st)) = max_depth_reached st \<and>
   domain (snd (process_results rs acc st)) = domain st \<and>
   proxy_url (snd (process_results rs acc st)) = proxy_url st \<and>
   error_details (snd (process_results rs acc st)) = error_details st \<and>
   crawled_urls (snd (process_results rs acc st)) = crawled_urls st"
  by (induction rs arbitrary: acc st) (auto simp: Let_def)






section \<open>The URL filters and the scheme\<close>

lemma is_valid_domain_url_parse_failure:
  "urlparse u = Inl e \<Longrightarrow> \<not> is_valid_domain_url w self u"
  by (simp add: is_valid_domain_url_def)

lemma is_valid_url_for_domain_parse_failure:
  "urlparse u = Inl e \<Longrightarrow> \<not> is_valid_url_for_domain w u d options"
  by (simp add: is_valid_url_for_domain_def)

lemma is_valid_url_for_domain_scheme:
  "is_valid_url_for_domain w u d options \<Longrightarrow>
   \<exists>parsed. urlparse u = Inr parsed \<and> (scheme parsed = ''http'' \<or> scheme parsed = ''https'')"
  by (auto simp: is_valid_url_for_domain_def Let_def split: sum.splits)

text \<open>
  Claim C9 at \<open>ftp://a.com/file\<close> on a crawl of \<open>a.com\<close>: the URL parses with the scheme
  \<open>ftp\<close>, the filter of \<open>extract_links\<close> rejects it, and \<open>_is_valid_domain_url\<close>, which
  \<open>_crawl_url\<close> applies to the links of a page, admits it, since it never looks at the
  scheme.
\<close>

theorem is_valid_domain_url_admits_ftp:
  "urlparse ''ftp://a.com/file''
     = Inr \<lparr>scheme = ''ftp'', netloc = ''a.com'', path = ''/file'', params = [], query = [],
            fragment = []\<rparr>
   \<and> is_valid_domain_url (example_world web_a) at_a_com ''ftp://a.com/file''
   \<and> \<not> is_valid_url_for_domain (example_world web_a) ''ftp://a.com/file'' ''a.com'' None"
  by code_simp

section \<open>The frontier of one depth\<close>

lemma is_valid_domain_url_cong:
  "domain s1 = domain s2 \<Longrightarrow> is_valid_domain_url w s1 u = is_valid_domain_url w s2 u"
  by (simp add: is_valid_domain_url_def split: sum.splits)

lemma extract_new_urls_cong:
  "domain s1 = domain s2 \<Longrightarrow> extract_new_urls w s1 u hrefs = extract_new_urls w s2 u hrefs"
  by (induction hrefs) (simp_all add: is_valid_domain_url_cong [of s1 s2] split: sum.splits)

lemma crawl_url_cong:
  "domain s1 = domain s2 \<Longrightarrow> proxy_url s1 = proxy_url s2 \<Longrightarrow>
   crawl_url w s1 u d = crawl_url w s2 u d"
  by (simp add: crawl_url_def extract_new_urls_cong [of s1 s2] split: response.splits)

lemma process_batch_cong:
  "domain s1 = domain s2 \<Longrightarrow> proxy_url s1 = proxy_url s2 \<Longrightarrow>
   process_batch w s1 batch d = process_batch w s2 batch d"
  by (simp add: process_batch_def crawl_url_cong [of s1 s2])

lemma collect_new_urls_subset:
  "set (collect_new_urls st ns acc) \<subseteq> set acc \<union> set ns"
proof (induction ns arbitrary: acc)
  case Nil
  then show ?case by simp
next
  case (Cons a ns)
  show ?case
    using Cons.IH [where acc = "acc @ [a]"] Cons.IH [where acc = acc] by auto
qed

lemma process_results_new_urls:
  "n \<in> set (fst (process_results rs acc st)) \<Longrightarrow>
   n \<in> set acc \<or> (\<exists>r \<in> set rs. status r = success \<and> n \<in> set (new_urls r))"
proof (induction rs arbitrary: acc st)
  case Nil
  then show ?case by simp
next
  case (Cons r rs)
  show ?case
  proof (cases "status r = success")
    case True
    let ?st1 = "st\<lparr>successful_urls := insert (url r) (successful_urls st)\<rparr>"
    from Cons.prems True
    have "n \<in> set (fst (process_results rs (collect_new_urls ?st1 (new_urls r) acc) ?st1))"
      by (simp add: Let_def)
    from Cons.IH [OF this]
    have "n \<in> set (collect_new_urls ?st1 (new_urls r) acc)
          \<or> (\<exists>r' \<in> set rs. status r' = success \<and> n \<in> set (new_urls r'))" .
    with collect_new_urls_subset [of ?st1 "new_urls r" acc] True show ?thesis by auto
  next
    case False
    with Cons.prems
    have "n \<in> set (fst (process_results rs acc (st\<lparr>failed_urls := insert (url r) (failed_urls st)\<rparr>)))"
      by simp
    from Cons.IH [OF this] show ?thesis by auto
  qed
qed

lemma slice_to_subset: "set (slice_to xs n) \<subseteq> set xs"
  by (auto simp: slice_to_def dest: in_set_takeD)

lemma chunks_concat: "0 < n \<Longrightarrow> concat (chunks n xs) = xs"
proof (induction n xs rule: chunks.induct)
  case (1 n xs)
  show ?case
  proof (cases "xs = []")
    case True
    then show ?thesis by (subst chunks.simps) simp
  next
    case False
    with 1 show ?thesis by (subst chunks.simps) simp
  qed
qed

lemma make_batches_concat:
  assumes "make_batches us bs = Inr batches"
  shows "set (concat batches) \<subseteq> set us"
proof (cases "bs < 0")
  case True
  with assms show ?thesis by (simp add: make_batches_def split: if_splits)
next
  case False
  with assms have "0 < nat bs" and "batches = chunks (nat bs) us"
    by (simp_all add: make_batches_def split: if_splits)
  then have "concat batches = us" by (simp add: chunks_concat)
  then show ?thesis by simp
qed

lemma batch_loop_stop:
  "mx \<le> int (card (successful_urls (snd (process_results (process_batch w st b d) [] st)))) \<Longrightarrow>
   batch_loop w d mx (b # bs) nxt st =
     (nxt @ fst (process_results (process_batch w st b d) [] st),
      snd (process_results (process_batch w st b d) [] st))"
  by (simp add: Let_def case_prod_beta)

lemma batch_loop_continue:
  "\<not> mx \<le> int (card (successful_urls (snd (process_results (process_batch w st b d) [] st)))) \<Longrightarrow>
   batch_loop w d mx (b # bs) nxt st =
     batch_loop w d mx bs (nxt @ fst (process_results (process_batch w st b d) [] st))
       (snd (process_results (process_batch w st b d) [] st))"
  by (simp add: Let_def case_prod_beta)

declare batch_loop.simps(2) [simp del]

lemma batch_loop_frame:
  "domain (snd (batch_loop w d mx batches nxt st)) = domain st \<and>
   proxy_url (snd (batch_loop w d mx batches nxt st)) = proxy_url st \<and>
   max_depth_reached (snd (batch_loop w d mx batches nxt st)) = max_depth_reached st \<and>
   error_details (snd (batch_loop w d mx batches nxt st)) = error_details st \<and>
   crawled_urls (snd (batch_loop w d mx batches nxt st)) = crawled_urls st"
proof (induction batches arbitrary: nxt st)
  case Nil
  then show ?case by simp
next
  case (Cons b bs)
  let ?st1 = "snd (process_results (process_batch w st b d) [] st)"
  note fr = process_results_frame [of "process_batch w st b d" "[]" st]
  show ?case
  proof (cases "mx \<le> int (card (successful_urls ?st1))")
    case True
    then show ?thesis using fr by (simp add: batch_loop_stop)
  next
    case False
    then show ?thesis
      using fr Cons.IH [where st = ?st1] by (simp add: batch_loop_continue)
  qed
qed

lemma batch_loop_successful_mono:
  "successful_urls st \<subseteq> successful_urls (snd (batch_loop w d mx batches nxt st))"
proof (induction batches arbitrary: nxt st)
  case Nil
  then show ?case by simp
next
  case (Cons b bs)
  let ?st1 = "snd (process_results (process_batch w st b d) [] st)"
  have m: "successful_urls st \<subseteq> successful_urls ?st1"
    by (simp add: process_results_successful)
  show ?case
  proof (cases "mx \<le> int (card (successful_urls ?st1))")
    case True
    then show ?thesis using m by (simp add: batch_loop_stop)
  next
    case False
    then show ?thesis
      using m Cons.IH [where st = ?st1] by (simp add: batch_loop_continue) blast
  qed
qed

lemma batch_loop_failed_mono:
  "failed_urls st \<subseteq> failed_urls (snd (batch_loop w d mx batches nxt st))"
proof (induction batches arbitrary: nxt st)
  case Nil
  then show ?case by simp
next
  case (Cons b bs)
  let ?st1 = "snd (process_results (process_batch w st b d) [] st)"
  have m: "failed_urls st \<subseteq> failed_urls ?st1"
    by (simp add: process_results_failed)
  show ?case
  proof (cases "mx \<le> int (card (successful_urls ?st1))")
    case True
    then show ?thesis using m by (simp add: batch_loop_stop)
  next
    case False
    then show ?thesis
      using m Cons.IH [where st = ?st1] by (simp add: batch_loop_continue) blast
  qed
qed

lemma batch_loop_new_urls:
  assumes "n \<in> set (fst (batch_loop w d mx batches nxt st))"
  shows "n \<in> set nxt \<or>
         (\<exists>v \<in> set (concat batches). v \<in> successful_urls (snd (batch_loop w d mx batches nxt st))
            \<and> status (crawl_url w st v d) = success \<and> n \<in> set (new_urls (crawl_url w st v d)))"
  using assms
proof (induction batches arbitrary: nxt st)
  case Nil
  then show ?case by simp
next
  case (Cons b bs)
  let ?rs = "process_batch w st b d"
  let ?new = "fst (process_results ?rs [] st)"
  let ?st1 = "snd (process_results ?rs [] st)"
  have fr: "domain ?st1 = domain st" "proxy_url ?st1 = proxy_url st"
    using process_results_frame [of ?rs "[]" st] by simp_all
  have cr: "crawl_url w ?st1 v d = crawl_url w st v d" for v
    by (rule crawl_url_cong) (simp_all add: fr)
  have from_batch: "\<exists>v \<in> set b. v \<in> successful_urls ?st1 \<and> status (crawl_url w st v d) = success
                      \<and> n \<in> set (new_urls (crawl_url w st v d))"
    if "n \<in> set ?new"
  proof -
    from process_results_new_urls [OF that]
    obtain r where r: "r \<in> set ?rs" "status r = success" "n \<in> set (new_urls r)" by auto
    then obtain v where v: "v \<in> set b" "r = crawl_url w st v d"
      by (auto simp: process_batch_def)
    have "url r \<in> successful_urls ?st1"
      using r(1,2) by (auto simp: process_results_successful)
    with v r show ?thesis by (auto simp: crawl_url_url)
  qed
  show ?case
  proof (cases "mx \<le> int (card (successful_urls ?st1))")
    case True
    with Cons.prems have "n \<in> set nxt \<or> n \<in> set ?new"
      by (simp add: batch_loop_stop)
    then show ?thesis
    proof
      assume "n \<in> set nxt" then show ?thesis by simp
    next
      assume "n \<in> set ?new"
      from from_batch [OF this] True show ?thesis
        by (simp add: batch_loop_stop) blast
    qed
  next
    case False
    let ?fin = "snd (batch_loop w d mx bs (nxt @ ?new) ?st1)"
    have mono: "successful_urls ?st1 \<subseteq> successful_urls ?fin"
      by (rule batch_loop_successful_mono)
    from False Cons.prems have "n \<in> set (fst (batch_loop w d mx bs (nxt @ ?new) ?st1))"
      by (simp add: batch_loop_continue)
    from Cons.IH [OF this]
    consider "n \<in> set nxt" | "n \<in> set ?new"
      | v where "v \<in> set (concat bs)" "v \<in> successful_urls ?fin"
          "status (crawl_url w st v d) = success" "n \<in> set (new_urls (crawl_url w st v d))"
      by (auto simp: cr)
    then show ?thesis
    proof cases
      case 1
      then show ?thesis by simp
    next
      case 2
      from from_batch [OF this] obtain v where
        "v \<in> set b" "v \<in> successful_urls ?st1" "status (crawl_url w st v d) = success"
        "n \<in> set (new_urls (crawl_url w st v d))" by blast
      with mono False show ?thesis
        by (simp add: batch_loop_continue) blast
    next
      case 3
      with False show ?thesis
        by (simp add: batch_loop_continue) blast
    qed
  qed
qed

lemma process_depth_Inl:
  "fst (process_depth_with_progress w st us d bs mx) = Inl e \<Longrightarrow>
   snd (process_depth_with_progress w st us d bs mx) = st"
  by (cases "make_batches us bs")
     (simp_all add: process_depth_with_progress_def Let_def case_prod_beta)

lemma process_depth_Inr:
  assumes "process_depth_with_progress w st us d bs mx = (Inr nxt, st')"
  obtains batches where "make_batches us bs = Inr batches"
    and "nxt = slice_to (fst (batch_loop w d mx batches [] st))
                 (mx - int (card (successful_urls (snd (batch_loop w d mx batches [] st)))))"
    and "st' = snd (batch_loop w d mx batches [] st)"
proof (cases "make_batches us bs")
  case (Inl e)
  with assms show ?thesis by (simp add: process_depth_with_progress_def)
next
  case (Inr batches)
  with assms have
    "nxt = slice_to (fst (batch_loop w d mx batches [] st))
             (mx - int (card (successful_urls (snd (batch_loop w d mx batches [] st)))))"
    "st' = snd (batch_loop w d mx batches [] st)"
    by (auto simp: process_depth_with_progress_def Let_def case_prod_beta)
  with Inr that show ?thesis by blast
qed

lemma process_depth_new_urls:
  assumes "process_depth_with_progress w st us d bs mx = (Inr nxt, st')" and "n \<in> set nxt"
  shows "\<exists>v \<in> set us. v \<in> successful_urls st' \<and> status (crawl_url w st v d) = success
           \<and> n \<in> set (new_urls (crawl_url w st v d))"
proof -
  from assms(1) obtain batches where
    b: "make_batches us bs = Inr batches" and
    n: "nxt = slice_to (fst (batch_loop w d mx batches [] st))
                (mx - int (card (successful_urls (snd (batch_loop w d mx batches [] st)))))" and
    s: "st' = snd (batch_loop w d mx batches [] st)"
    by (rule process_depth_Inr)
  from assms(2) n have "n \<in> set (fst (batch_loop w d mx batches [] st))"
    using slice_to_subset by fastforce
  from batch_loop_new_urls [OF this] make_batches_concat [OF b] s show ?thesis by auto
qed

text \<open>
  Claim C10. A fetch succeeds exactly on a response with status 200 whose links all
  resolve; every other outcome (another status, a timeout, any exception) has an empty
  \<open>new_urls\<close>. The loop over the results takes candidates only from the results whose
  status is \<open>success\<close>, and every URL that \<open>_process_depth_with_progress\<close> returns for the
  next depth is a link of a page of this depth that was fetched with success and stands in
  \<open>successful_urls\<close>.
\<close>

theorem frontier_only_from_successful_pages:
  "(status (crawl_url w self u d) = success \<longleftrightarrow>
      (\<exists>hrefs found. http_get w u (por (proxy_url self) (get_proxy_from_env w)) = Response 200 hrefs
         \<and> extract_new_urls w self u hrefs = Inr found))
   \<and> (status (crawl_url w self u d) \<noteq> success \<longrightarrow> new_urls (crawl_url w self u d) = [])
   \<and> (\<forall>rs acc n. n \<in> set (fst (process_results rs acc self)) \<longrightarrow>
         n \<in> set acc \<or> (\<exists>r \<in> set rs. status r = success \<and> n \<in> set (new_urls r)))
   \<and> (\<forall>us bs mx nxt self' n.
         process_depth_with_progress w self us d bs mx = (Inr nxt, self') \<and> n \<in> set nxt \<longrightarrow>
         (\<exists>v \<in> set us. v \<in> successful_urls self' \<and> status (crawl_url w self v d) = success
            \<and> n \<in> set (new_urls (crawl_url w self v d))))"
proof (intro conjI allI impI)
  show "status (crawl_url w self u d) = success \<longleftrightarrow>
      (\<exists>hrefs found. http_get w u (por (proxy_url self) (get_proxy_from_env w)) = Response 200 hrefs
         \<and> extract_new_urls w self u hrefs = Inr found)"
    by (auto simp: crawl_url_def split: response.splits sum.splits)
next
  assume "status (crawl_url w self u d) \<noteq> success"
  then show "new_urls (crawl_url w self u d) = []"
    by (rule crawl_url_not_success_no_links)
next
  fix rs acc n
  assume "n \<in> set (fst (process_results rs acc self))"
  then show "n \<in> set acc \<or> (\<exists>r \<in> set rs. status r = success \<and> n \<in> set (new_urls r))"
    by (rule process_results_new_urls)
next
  fix us bs mx nxt self' n
  assume "process_depth_with_progress w self us d bs mx = (Inr nxt, self') \<and> n \<in> set nxt"
  then show "\<exists>v \<in> set us. v \<in> successful_urls self' \<and> status (crawl_url w self v d) = success
               \<and> n \<in> set (new_urls (crawl_url w self v d))"
    using process_depth_new_urls by blast
qed

theorem frontier_only_from_successful_pages_witness:
  "fst (process_depth_with_progress (example_world web_a)
          (at_a_com\<lparr>successful_urls := {''https://a.com''}\<rparr>) [''https://a.com''] 0 10 100)
     = Inr [''https://a.com/x'', ''http://a.com/x'', ''https://a.com/y#f'', ''https://a.com/q'']
   \<and> status (crawl_url (example_world web_a) (at_a_com\<lparr>successful_urls := {''https://a.com''}\<rparr>)
               ''https://a.com'' 0) = success
   \<and> ''https://a.com/q''
       \<in> set (new_urls (crawl_url (example_world web_a)
                          (at_a_com\<lparr>successful_urls := {''https://a.com''}\<rparr>) ''https://a.com'' 0))
   \<and> new_urls (crawl_url (example_world web_a) at_a_com ''https://a.com/q'' 1) = []"
proof -
  let ?w = "example_world web_a"
  let ?s = "at_a_com\<lparr>successful_urls := {''https://a.com''}\<rparr>"
  let ?nxt = "[''https://a.com/x'', ''http://a.com/x'', ''https://a.com/y#f'', ''https://a.com/q'']"
  have f: "fst (process_depth_with_progress ?w ?s [''https://a.com''] 0 10 100) = Inr ?nxt"
    by code_simp
  then have p: "process_depth_with_progress ?w ?s [''https://a.com''] 0 10 100
                  = (Inr ?nxt, snd (process_depth_with_progress ?w ?s [''https://a.com''] 0 10 100))"
    by (simp add: prod_eq_iff)
  have q: "''https://a.com/q'' \<in> set ?nxt" by simp
  have ns: "status (crawl_url ?w at_a_com ''https://a.com/q'' 1) \<noteq> success"
    by code_simp
  note t = frontier_only_from_successful_pages [of ?w ?s "''https://a.com''" 0]
  note t4 = t [THEN conjunct2, THEN conjunct2, THEN conjunct2, rule_format, OF conjI [OF p q]]
  from t4
  have "status (crawl_url ?w ?s ''https://a.com'' 0) = success"
    and "''https://a.com/q'' \<in> set (new_urls (crawl_url ?w ?s ''https://a.com'' 0))"
    by simp_all
  moreover have "new_urls (crawl_url ?w at_a_com ''https://a.com/q'' 1) = []"
    by (rule frontier_only_from_successful_pages
          [of ?w at_a_com "''https://a.com/q''" 1, THEN conjunct2, THEN conjunct1, rule_format, OF ns])
  ultimately show ?thesis using f by simp
qed

section \<open>Deduplication\<close>

lemma first_pass_inv:
  assumes "first_pass P us uniq seen = Inr r"
    and "seen = set uniq" and "distinct uniq" and "set uniq \<inter> P = {}"
    and "\<forall>u \<in> set uniq. plain_url u"
  shows "distinct r \<and> set r \<inter> P = {} \<and> (\<forall>u \<in> set r. plain_url u)
         \<and> set r \<subseteq> set uniq \<union> set us"
  using assms
proof (induction us arbitrary: uniq seen)
  case Nil
  then show ?case by simp
next
  case (Cons a us)
  from Cons.prems(1) obtain p where p: "urlparse a = Inr p"
    by (cases "urlparse a") simp_all
  show ?case
  proof (cases "fragment p \<noteq> [] \<or> a \<in> P \<or> a \<in> seen")
    case True
    with Cons.prems(1) p have "first_pass P us uniq seen = Inr r"
      by (auto split: if_splits)
    from Cons.IH [OF this Cons.prems(2-5)]
    have "distinct r" "set r \<inter> P = {}" "\<forall>u \<in> set r. plain_url u"
      "set r \<subseteq> set uniq \<union> set us" by simp_all
    then show ?thesis by auto
  next
    case False
    then have na: "fragment p = []" "a \<notin> P" "a \<notin> seen" by simp_all
    with Cons.prems(1) p have s1: "first_pass P us (uniq @ [a]) (insert a seen) = Inr r"
      by simp
    have s2: "insert a seen = set (uniq @ [a])" using Cons.prems(2) by simp
    have s3: "distinct (uniq @ [a])" using Cons.prems(2,3) na by simp
    have s4: "set (uniq @ [a]) \<inter> P = {}" using Cons.prems(4) na by simp
    have s5: "\<forall>u \<in> set (uniq @ [a]). plain_url u"
      using Cons.prems(5) na p by (simp add: plain_url_def)
    from Cons.IH [OF s1 s2 s3 s4 s5]
    have "distinct r" "set r \<inter> P = {}" "\<forall>u \<in> set r. plain_url u"
      "set r \<subseteq> set (uniq @ [a]) \<union> set us" by simp_all
    then show ?thesis by auto
  qed
qed

lemma first_pass_fixed:
  assumes "seen = set uniq" and "distinct us" and "set us \<inter> P = {}"
    and "set us \<inter> set uniq = {}" and "\<forall>u \<in> set us. plain_url u"
  shows "first_pass P us uniq seen = Inr (uniq @ us)"
  using assms
proof (induction us arbitrary: uniq seen)
  case Nil
  then show ?case by simp
next
  case (Cons a us)
  from Cons.prems(5) obtain p where p: "urlparse a = Inr p" "fragment p = []"
    by (auto simp: plain_url_def split: sum.splits)
  have na: "a \<notin> P" "a \<notin> seen" using Cons.prems(1,3,4) by auto
  have i1: "insert a seen = set (uniq @ [a])" using Cons.prems(1) by simp
  have i2: "distinct us" using Cons.prems(2) by simp
  have i3: "set us \<inter> P = {}" using Cons.prems(3) by auto
  have i4: "set us \<inter> set (uniq @ [a]) = {}" using Cons.prems(2,4) by auto
  have i5: "\<forall>u \<in> set us. plain_url u" using Cons.prems(5) by simp
  have "first_pass P us (uniq @ [a]) (insert a seen) = Inr ((uniq @ [a]) @ us)"
    by (rule Cons.IH [OF i1 i2 i3 i4 i5])
  with p na show ?case by simp
qed

lemma groups_append_old_key:
  "k \<in> fst ` set gs \<Longrightarrow> map fst (groups_append k u gs) = map fst gs"
proof (induction gs)
  case Nil
  then show ?case by simp
next
  case (Cons kg gs)
  obtain k' g where kg: "kg = (k', g)" by (cases kg)
  show ?case
  proof (cases "k' = k")
    case True
    with kg show ?thesis by simp
  next
    case False
    with Cons.prems kg have "k \<in> fst ` set gs" by auto
    from Cons.IH [OF this] False kg show ?thesis by simp
  qed
qed

lemma groups_append_new_key:
  "k \<notin> fst ` set gs \<Longrightarrow> groups_append k u gs = gs @ [(k, [u])]"
  by (induction gs) auto

lemma groups_append_keys:
  "map fst (groups_append k u gs) = (if k \<in> fst ` set gs then map fst gs else map fst gs @ [k])"
  by (simp add: groups_append_old_key groups_append_new_key)

lemma groups_append_map_of:
  "map_of (groups_append k u gs) k' =
     (if k' = k then Some ((case map_of gs k of None \<Rightarrow> [] | Some g \<Rightarrow> g) @ [u])
      else map_of gs k')"
  by (induction gs) auto

lemma second_pass_char:
  assumes "second_pass us gs = Inr gs'" and "distinct (map fst gs)"
  shows "distinct (map fst gs') \<and> fst ` set gs' = fst ` set gs \<union> key_of ` set us
         \<and> (\<forall>k. map_of gs' k =
               (case map_of gs k of
                  None \<Rightarrow> (if filter (\<lambda>u. key_of u = k) us = [] then None
                            else Some (filter (\<lambda>u. key_of u = k) us))
                | Some g \<Rightarrow> Some (g @ filter (\<lambda>u. key_of u = k) us)))"
  using assms
proof (induction us arbitrary: gs)
  case Nil
  then show ?case by (auto split: option.splits)
next
  case (Cons a us)
  from Cons.prems(1) obtain p where p: "urlparse a = Inr p"
    by (cases "urlparse a") simp_all
  let ?k = "path_key p"
  let ?g1 = "groups_append ?k a gs"
  have ka: "key_of a = ?k" using p by (simp add: key_of_def)
  from Cons.prems(1) p have s: "second_pass us ?g1 = Inr gs'" by simp
  have d1: "distinct (map fst ?g1)"
    using Cons.prems(2) by (simp add: groups_append_keys)
  have k1: "fst ` set ?g1 = insert ?k (fst ` set gs)"
    using arg_cong [OF groups_append_keys [of ?k a gs], of set] by auto
  note IH = Cons.IH [OF s d1]
  have "distinct (map fst gs')" using IH by simp
  moreover have "fst ` set gs' = fst ` set gs \<union> key_of ` set (a # us)"
    using IH k1 ka by auto
  moreover have "map_of gs' k =
               (case map_of gs k of
                  None \<Rightarrow> (if filter (\<lambda>u. key_of u = k) (a # us) = [] then None
                            else Some (filter (\<lambda>u. key_of u = k) (a # us)))
                | Some g \<Rightarrow> Some (g @ filter (\<lambda>u. key_of u = k) (a # us)))" for k
  proof -
    from IH have "map_of gs' k =
               (case map_of ?g1 k of
                  None \<Rightarrow> (if filter (\<lambda>u. key_of u = k) us = [] then None
                            else Some (filter (\<lambda>u. key_of u = k) us))
                | Some g \<Rightarrow> Some (g @ filter (\<lambda>u. key_of u = k) us))" by blast
    then show ?thesis
      by (simp add: groups_append_map_of ka split: option.splits)
  qed
  ultimately show ?case by blast
qed

lemma second_pass_singletons:
  assumes "\<forall>u \<in> set us. plain_url u" and "distinct (map key_of us)"
    and "key_of ` set us \<inter> fst ` set gs = {}"
  shows "second_pass us gs = Inr (gs @ map (\<lambda>u. (key_of u, [u])) us)"
  using assms
proof (induction us arbitrary: gs)
  case Nil
  then show ?case by simp
next
  case (Cons a us)
  from Cons.prems(1) obtain p where p: "urlparse a = Inr p"
    by (auto simp: plain_url_def split: sum.splits)
  have ka: "key_of a = path_key p" using p by (simp add: key_of_def)
  have ga: "groups_append (key_of a) a gs = gs @ [(key_of a, [a])]"
    using Cons.prems(3) by (intro groups_append_new_key) auto
  have "second_pass us (gs @ [(key_of a, [a])])
          = Inr ((gs @ [(key_of a, [a])]) @ map (\<lambda>u. (key_of u, [u])) us)"
    using Cons.prems by (intro Cons.IH) auto
  with p ka ga show ?case by simp
qed

lemma hd_filter_mem: "filter Q xs \<noteq> [] \<Longrightarrow> hd (filter Q xs) \<in> set xs"
  using hd_in_set [of "filter Q xs"] by auto

lemma representative_mem: "g \<noteq> [] \<Longrightarrow> representative g \<in> set g"
  by (simp add: representative_def hd_filter_mem)

lemma choose_url_representative: "g \<noteq> [] \<Longrightarrow> choose_url g = Inr (representative g)"
proof (cases g)
  case Nil
  assume "g \<noteq> []" with Nil show ?thesis by simp
next
  case (Cons a rest)
  show ?thesis
  proof (cases rest)
    case Nil
    with Cons show ?thesis
      by (simp add: choose_url_def representative_def index0_def)
  next
    case (Cons b rest')
    with \<open>g = a # rest\<close> show ?thesis
      by (simp add: choose_url_def representative_def index0_def Let_def split: list.splits)
  qed
qed

lemma third_pass_char:
  "\<forall>(k, g) \<in> set gs. g \<noteq> [] \<Longrightarrow>
   third_pass gs fin = Inr (fin @ map (\<lambda>(k, g). representative g) gs)"
proof (induction gs arbitrary: fin)
  case Nil
  then show ?case by simp
next
  case (Cons kg gs)
  obtain k g where kg: "kg = (k, g)" by (cases kg)
  with Cons.prems have "g \<noteq> []" by simp
  then have "choose_url g = Inr (representative g)" by (rule choose_url_representative)
  moreover have "third_pass gs (fin @ [representative g])
                   = Inr ((fin @ [representative g]) @ map (\<lambda>(k, g). representative g) gs)"
    using Cons.prems by (intro Cons.IH) simp
  ultimately show ?case using kg by simp
qed

lemma first_pass_set:
  assumes "first_pass P us uniq seen = Inr r" and "seen = set uniq"
  shows "set r = set uniq \<union> {u \<in> set us. plain_url u \<and> u \<notin> P}"
  using assms
proof (induction us arbitrary: uniq seen)
  case Nil
  then show ?case by simp
next
  case (Cons a us)
  from Cons.prems(1) obtain p where p: "urlparse a = Inr p"
    by (cases "urlparse a") simp_all
  have pl: "plain_url a \<longleftrightarrow> fragment p = []" using p by (simp add: plain_url_def)
  show ?case
  proof (cases "fragment p \<noteq> [] \<or> a \<in> P \<or> a \<in> seen")
    case True
    with Cons.prems(1) p have "first_pass P us uniq seen = Inr r"
      by (auto split: if_splits)
    from Cons.IH [OF this Cons.prems(2)] True pl Cons.prems(2) show ?thesis by auto
  next
    case False
    then have na: "fragment p = []" "a \<notin> P" "a \<notin> seen" by simp_all
    with Cons.prems(1) p have s1: "first_pass P us (uniq @ [a]) (insert a seen) = Inr r"
      by simp
    have s2: "insert a seen = set (uniq @ [a])" using Cons.prems(2) by simp
    from Cons.IH [OF s1 s2] na pl show ?thesis by auto
  qed
qed

lemma assoc_filter_key:
  "distinct (map fst gs) \<Longrightarrow> (k, g) \<in> set gs \<Longrightarrow> filter (\<lambda>x. fst x = k) gs = [(k, g)]"
proof (induction gs)
  case Nil
  then show ?case by simp
next
  case (Cons kg gs)
  show ?case
  proof (cases "kg = (k, g)")
    case True
    have "filter (\<lambda>x. fst x = k) gs = []"
      using Cons.prems(1) True by (auto simp: filter_empty_conv)
    with True show ?thesis by simp
  next
    case False
    with Cons.prems have m: "(k, g) \<in> set gs" by simp
    then have "k \<in> fst ` set gs" by force
    then have "fst kg \<noteq> k" using Cons.prems(1) by auto
    with Cons.IH m Cons.prems(1) show ?thesis by simp
  qed
qed

text \<open>What a successful call of \<open>_deduplicate_urls\<close> computes, pass by pass.\<close>

lemma deduplicate_urls_char:
  assumes "deduplicate_urls self X = Inr Y"
  obtains U gs where
    "first_pass (successful_urls self \<union> failed_urls self) X [] {} = Inr U"
    "second_pass U [] = Inr gs"
    "Y = map (\<lambda>(k, g). representative g) gs"
    "distinct (map fst gs)"
    "fst ` set gs = key_of ` set U"
    "\<forall>(k, g) \<in> set gs. g \<noteq> [] \<and> g = filter (\<lambda>u. key_of u = k) U"
proof -
  let ?P = "successful_urls self \<union> failed_urls self"
  from assms obtain U where U: "first_pass ?P X [] {} = Inr U"
    by (cases "first_pass ?P X [] {}") (simp_all add: deduplicate_urls_def)
  from assms U obtain gs where gs: "second_pass U [] = Inr gs"
    by (cases "second_pass U []") (simp_all add: deduplicate_urls_def)
  from assms U gs have tp: "third_pass gs [] = Inr Y"
    by (simp add: deduplicate_urls_def)
  from second_pass_char [OF gs]
  have d: "distinct (map fst gs)" and ks: "fst ` set gs = key_of ` set U"
    and mo: "\<And>k. map_of gs k = (if filter (\<lambda>u. key_of u = k) U = [] then None
                                   else Some (filter (\<lambda>u. key_of u = k) U))"
    by simp_all
  have grp: "g \<noteq> [] \<and> g = filter (\<lambda>u. key_of u = k) U" if "(k, g) \<in> set gs" for k g
  proof -
    from d that have "map_of gs k = Some g" by simp
    with mo [of k] show ?thesis by (auto split: if_splits)
  qed
  then have ne: "\<forall>(k, g) \<in> set gs. g \<noteq> []" by blast
  from third_pass_char [OF ne, of "[]"] tp
  have Y: "Y = map (\<lambda>(k, g). representative g) gs" by simp
  from grp have "\<forall>(k, g) \<in> set gs. g \<noteq> [] \<and> g = filter (\<lambda>u. key_of u = k) U" by blast
  with U gs Y d ks that show ?thesis by blast
qed

lemma deduplicate_urls_props:
  assumes "deduplicate_urls self X = Inr Y"
  shows "distinct (map key_of Y)" and "distinct Y"
    and "set Y \<inter> (successful_urls self \<union> failed_urls self) = {}"
    and "\<forall>u \<in> set Y. plain_url u" and "set Y \<subseteq> set X"
proof -
  let ?P = "successful_urls self \<union> failed_urls self"
  from assms obtain U gs where
    U: "first_pass ?P X [] {} = Inr U" and
    Y: "Y = map (\<lambda>(k, g). representative g) gs" and
    d: "distinct (map fst gs)" and
    grp: "\<forall>(k, g) \<in> set gs. g \<noteq> [] \<and> g = filter (\<lambda>u. key_of u = k) U"
    by (rule deduplicate_urls_char)
  from first_pass_inv [OF U]
  have Up: "set U \<inter> ?P = {}" "\<forall>u \<in> set U. plain_url u" "set U \<subseteq> set X" by simp_all
  have rep: "representative g \<in> set U \<and> key_of (representative g) = k"
    if "(k, g) \<in> set gs" for k g
  proof -
    from grp that have g: "g \<noteq> []" "g = filter (\<lambda>u. key_of u = k) U" by auto
    from representative_mem [OF g(1)] have "representative g \<in> set (filter (\<lambda>u. key_of u = k) U)"
      using g(2) by simp
    then show ?thesis by simp
  qed
  have "map key_of Y = map fst gs"
    unfolding Y using rep by (induction gs) auto
  with d show dk: "distinct (map key_of Y)" by simp
  then show "distinct Y" by (simp add: distinct_map)
  have sub: "set Y \<subseteq> set U" unfolding Y using rep by auto
  with Up show "set Y \<inter> ?P = {}" "\<forall>u \<in> set Y. plain_url u" "set Y \<subseteq> set X" by auto
qed

lemma representative_single: "representative [u] = u"
  by (simp add: representative_def)

lemma third_pass_singletons:
  "third_pass (map (\<lambda>u. (key_of u, [u])) us) fin = Inr (fin @ us)"
proof -
  have "\<forall>(k, g) \<in> set (map (\<lambda>u. (key_of u, [u])) us). g \<noteq> []" by auto
  from third_pass_char [OF this, of fin]
  show ?thesis by (simp add: comp_def representative_single)
qed

text \<open>
  Claim C6. Deduplicating the result of a deduplication against the same instance, hence
  the same processed set, gives the result again; when the first call raises, so does the
  composition.
\<close>

theorem deduplicate_urls_idempotent:
  "(case deduplicate_urls self X of Inl e \<Rightarrow> Inl e | Inr Y \<Rightarrow> deduplicate_urls self Y)
     = deduplicate_urls self X"
proof (cases "deduplicate_urls self X")
  case (Inl e)
  then show ?thesis by simp
next
  case (Inr Y)
  let ?P = "successful_urls self \<union> failed_urls self"
  note props = deduplicate_urls_props [OF Inr]
  have f: "first_pass ?P Y [] {} = Inr ([] @ Y)"
    using props by (intro first_pass_fixed) auto
  have s: "second_pass Y [] = Inr ([] @ map (\<lambda>u. (key_of u, [u])) Y)"
    using props by (intro second_pass_singletons) auto
  have "deduplicate_urls self Y = Inr Y"
    using f s by (simp add: deduplicate_urls_def third_pass_singletons)
  with Inr show ?thesis by simp
qed

theorem deduplicate_urls_idempotent_witness:
  "deduplicate_urls FinderService_init [''http://a.com/x'', ''https://a.com/x'', ''http://a.com/y'']
     = Inr [''https://a.com/x'', ''http://a.com/y'']
   \<and> deduplicate_urls FinderService_init [''https://a.com/x'', ''http://a.com/y'']
     = Inr [''https://a.com/x'', ''http://a.com/y'']"
proof -
  have a: "deduplicate_urls FinderService_init
             [''http://a.com/x'', ''https://a.com/x'', ''http://a.com/y'']
           = Inr [''https://a.com/x'', ''http://a.com/y'']"
    by code_simp
  from deduplicate_urls_idempotent
         [of FinderService_init "[''http://a.com/x'', ''https://a.com/x'', ''http://a.com/y'']"]
  have "deduplicate_urls FinderService_init [''https://a.com/x'', ''http://a.com/y'']
          = Inr [''https://a.com/x'', ''http://a.com/y'']"
    by (simp add: a)
  with a show ?thesis by simp
qed

text \<open>
  Claim C5, as the code has it. The candidates that parse without a fragment and are not
  yet processed form the list \<open>U\<close> of the first loop, without repeats; the members of \<open>U\<close>
  with one canonical key are a group, in the order they were met. Of every group exactly
  one member is returned: its first \<open>https://\<close> URL if it has one, else its first
  \<open>http://\<close> URL if it has one, else its first member. For the two scheme variants of
  \<open>a.com/x\<close> the result is the \<open>https\<close> one.
\<close>

theorem deduplicate_urls_one_per_group:
  "(\<forall>(self::FinderService) X Y. deduplicate_urls self X = Inr Y \<longrightarrow>
      (\<exists>U. first_pass (successful_urls self \<union> failed_urls self) X [] {} = Inr U
         \<and> distinct U
         \<and> set U = {u \<in> set X. plain_url u \<and> u \<notin> successful_urls self \<union> failed_urls self}
         \<and> set Y \<subseteq> set U
         \<and> (\<forall>k \<in> key_of ` set U.
               filter (\<lambda>u. key_of u = k) Y = [representative (filter (\<lambda>u. key_of u = k) U)])))
   \<and> deduplicate_urls FinderService_init [''http://a.com/x'', ''https://a.com/x'']
       = Inr [''https://a.com/x'']"
proof (intro conjI allI impI)
  fix self :: FinderService and X Y
  let ?P = "successful_urls self \<union> failed_urls self"
  assume a: "deduplicate_urls self X = Inr Y"
  then obtain U gs where
    U: "first_pass ?P X [] {} = Inr U" and
    Y: "Y = map (\<lambda>(k, g). representative g) gs" and
    d: "distinct (map fst gs)" and
    ks: "fst ` set gs = key_of ` set U" and
    grp: "\<forall>(k, g) \<in> set gs. g \<noteq> [] \<and> g = filter (\<lambda>u. key_of u = k) U"
    by (rule deduplicate_urls_char)
  from first_pass_inv [OF U] have dU: "distinct U" by simp
  from first_pass_set [OF U] have sU: "set U = {u \<in> set X. plain_url u \<and> u \<notin> ?P}" by simp
  have rep: "representative g \<in> set U \<and> key_of (representative g) = k"
    if "(k, g) \<in> set gs" for k g
  proof -
    from grp that have g: "g \<noteq> []" "g = filter (\<lambda>u. key_of u = k) U" by auto
    from representative_mem [OF g(1)] have "representative g \<in> set (filter (\<lambda>u. key_of u = k) U)"
      using g(2) by simp
    then show ?thesis by simp
  qed
  have sub: "set Y \<subseteq> set U" unfolding Y using rep by auto
  have one: "filter (\<lambda>u. key_of u = k) Y = [representative (filter (\<lambda>u. key_of u = k) U)]"
    if "k \<in> key_of ` set U" for k
  proof -
    from that ks obtain g where g: "(k, g) \<in> set gs" by force
    with grp have gk: "g = filter (\<lambda>u. key_of u = k) U" by auto
    have "filter (\<lambda>u. key_of u = k) (map (\<lambda>(k, g). representative g) gs')
            = map (\<lambda>(k, g). representative g) (filter (\<lambda>x. fst x = k) gs')"
      if "set gs' \<subseteq> set gs" for gs'
      using that
    proof (induction gs')
      case Nil
      then show ?case by simp
    next
      case (Cons kg gs')
      obtain k' g' where kg: "kg = (k', g')" by (cases kg)
      with Cons.prems have "(k', g') \<in> set gs" by simp
      from rep [OF this] have "key_of (representative g') = k'" by simp
      with Cons kg show ?case by simp
    qed
    from this [of gs] have "filter (\<lambda>u. key_of u = k) Y
                              = map (\<lambda>(k, g). representative g) (filter (\<lambda>x. fst x = k) gs)"
      by (simp add: Y)
    also have "\<dots> = [representative g]"
      by (simp add: assoc_filter_key [OF d g])
    finally show ?thesis using gk by simp
  qed
  from U dU sU sub one
  show "\<exists>U. first_pass ?P X [] {} = Inr U \<and> distinct U
          \<and> set U = {u \<in> set X. plain_url u \<and> u \<notin> ?P} \<and> set Y \<subseteq> set U
          \<and> (\<forall>k \<in> key_of ` set U.
                filter (\<lambda>u. key_of u = k) Y = [representative (filter (\<lambda>u. key_of u = k) U)])"
    by blast
next
  show "deduplicate_urls FinderService_init [''http://a.com/x'', ''https://a.com/x'']
          = Inr [''https://a.com/x'']"
    by code_simp
qed

theorem deduplicate_urls_one_per_group_witness:
  "deduplicate_urls FinderService_init
     [''http://a.com/x'', ''https://a.com/x'', ''http://a.com/y'', ''ftp://a.com/z'', ''http://a.com/y#top'']
     = Inr [''https://a.com/x'', ''http://a.com/y'', ''ftp://a.com/z'']
   \<and> key_of ''http://a.com/x'' = ''a.com/x''
   \<and> filter (\<lambda>u. key_of u = ''a.com/x'')
         [''http://a.com/x'', ''https://a.com/x'', ''http://a.com/y'', ''ftp://a.com/z'']
       = [''http://a.com/x'', ''https://a.com/x'']
   \<and> filter (\<lambda>u. key_of u = ''a.com/x'') [''https://a.com/x'', ''http://a.com/y'', ''ftp://a.com/z'']
       = [''https://a.com/x'']"
proof -
  let ?X = "[''http://a.com/x'', ''https://a.com/x'', ''http://a.com/y'', ''ftp://a.com/z'',
             ''http://a.com/y#top'']"
  let ?U = "[''http://a.com/x'', ''https://a.com/x'', ''http://a.com/y'', ''ftp://a.com/z'']"
  let ?Y = "[''https://a.com/x'', ''http://a.com/y'', ''ftp://a.com/z'']"
  have a: "deduplicate_urls FinderService_init ?X = Inr ?Y" by code_simp
  have u: "first_pass (successful_urls FinderService_init \<union> failed_urls FinderService_init)
             ?X [] {} = Inr ?U" by code_simp
  have k: "key_of ''http://a.com/x'' = ''a.com/x''" by code_simp
  have g: "filter (\<lambda>u. key_of u = ''a.com/x'') ?U = [''http://a.com/x'', ''https://a.com/x'']"
    by code_simp
  have r: "representative [''http://a.com/x'', ''https://a.com/x''] = ''https://a.com/x''"
    by code_simp
  from deduplicate_urls_one_per_group [THEN conjunct1, rule_format, OF a]
  obtain U where
    U1: "first_pass (successful_urls FinderService_init \<union> failed_urls FinderService_init)
           ?X [] {} = Inr U" and
    U5: "\<forall>k \<in> key_of ` set U.
           filter (\<lambda>u. key_of u = k) ?Y = [representative (filter (\<lambda>u. key_of u = k) U)]"
    by blast
  from U1 have "U = ?U" unfolding u by simp
  have "key_of ''http://a.com/x'' \<in> key_of ` set ?U" by simp
  then have m: "''a.com/x'' \<in> key_of ` set U" unfolding k \<open>U = ?U\<close> .
  from U5 [rule_format, OF m]
  have "filter (\<lambda>u. key_of u = ''a.com/x'') ?Y = [''https://a.com/x'']"
    unfolding \<open>U = ?U\<close> g r .
  with a k g show ?thesis by (intro conjI)
qed

theorem deduplicate_urls_ftp_counterexample:
  "deduplicate_urls FinderService_init [''ftp://a.com/x''] = Inr [''ftp://a.com/x'']
   \<and> key_of ''ftp://a.com/x'' = ''a.com/x''
   \<and> \<not> startswith ''ftp://a.com/x'' ''https://''
   \<and> \<not> startswith ''ftp://a.com/x'' ''http://''"
  by code_simp

section \<open>What one depth does to the instance\<close>

lemma crawl_url_depth_cong:
  "domain s1 = domain s2 \<Longrightarrow> proxy_url s1 = proxy_url s2 \<Longrightarrow>
   crawl_url w s1 u d1 = crawl_url w s2 u d2"
  by (simp add: crawl_url_def extract_new_urls_cong [of s1 s2] split: response.splits)

lemma process_batch_successful:
  "successful_urls (snd (process_results (process_batch w st b d) acc st))
     = successful_urls st \<union> {u \<in> set b. status (crawl_url w st u d) = success}"
proof -
  have "url ` {r \<in> set (process_batch w st b d). status r = success}
          = {u \<in> set b. status (crawl_url w st u d) = success}"
    by (force simp: process_batch_def crawl_url_url image_iff)
  then show ?thesis by (simp add: process_results_successful)
qed

lemma process_batch_failed:
  "failed_urls (snd (process_results (process_batch w st b d) acc st))
     = failed_urls st \<union> {u \<in> set b. status (crawl_url w st u d) \<noteq> success}"
proof -
  have "url ` {r \<in> set (process_batch w st b d). status r \<noteq> success}
          = {u \<in> set b. status (crawl_url w st u d) \<noteq> success}"
    by (force simp: process_batch_def crawl_url_url image_iff)
  then show ?thesis by (simp add: process_results_failed)
qed

lemma batch_loop_successful_upper:
  "successful_urls (snd (batch_loop w d mx batches nxt st))
     \<subseteq> successful_urls st \<union> {u \<in> set (concat batches). status (crawl_url w st u d) = success}"
proof (induction batches arbitrary: nxt st)
  case Nil
  then show ?case by simp
next
  case (Cons b bs)
  let ?st1 = "snd (process_results (process_batch w st b d) [] st)"
  have fr: "domain ?st1 = domain st" "proxy_url ?st1 = proxy_url st"
    using process_results_frame [of "process_batch w st b d" "[]" st] by simp_all
  have cr: "crawl_url w ?st1 v d = crawl_url w st v d" for v
    by (rule crawl_url_cong) (simp_all add: fr)
  note pb = process_batch_successful [of w st b d "[]"]
  show ?case
  proof (cases "mx \<le> int (card (successful_urls ?st1))")
    case True
    then show ?thesis using pb by (auto simp: batch_loop_stop)
  next
    case False
    from Cons.IH [where st = ?st1 and nxt = "nxt @ fst (process_results (process_batch w st b d) [] st)"]
    show ?thesis using False pb by (auto simp: batch_loop_continue cr)
  qed
qed

lemma batch_loop_failed_upper:
  "failed_urls (snd (batch_loop w d mx batches nxt st))
     \<subseteq> failed_urls st \<union> {u \<in> set (concat batches). status (crawl_url w st u d) \<noteq> success}"
proof (induction batches arbitrary: nxt st)
  case Nil
  then show ?case by simp
next
  case (Cons b bs)
  let ?st1 = "snd (process_results (process_batch w st b d) [] st)"
  have fr: "domain ?st1 = domain st" "proxy_url ?st1 = proxy_url st"
    using process_results_frame [of "process_batch w st b d" "[]" st] by simp_all
  have cr: "crawl_url w ?st1 v d = crawl_url w st v d" for v
    by (rule crawl_url_cong) (simp_all add: fr)
  note pb = process_batch_failed [of w st b d "[]"]
  show ?case
  proof (cases "mx \<le> int (card (successful_urls ?st1))")
    case True
    then show ?thesis using pb by (auto simp: batch_loop_stop)
  next
    case False
    from Cons.IH [where st = ?st1 and nxt = "nxt @ fst (process_results (process_batch w st b d) [] st)"]
    show ?thesis using False pb by (auto simp: batch_loop_continue cr)
  qed
qed

lemma slice_to_length: "0 \<le> k \<Longrightarrow> int (length (slice_to xs k)) \<le> k"
  by (simp add: slice_to_def)

text \<open>The effect of \<open>_process_depth_with_progress\<close> when it returns.\<close>

lemma process_depth_effect:
  assumes "process_depth_with_progress w st us d bs mx = (Inr nxt, st')"
  shows "successful_urls st \<subseteq> successful_urls st'"
    and "successful_urls st'
           \<subseteq> successful_urls st \<union> {u \<in> set us. status (crawl_url w st u d) = success}"
    and "failed_urls st \<subseteq> failed_urls st'"
    and "failed_urls st'
           \<subseteq> failed_urls st \<union> {u \<in> set us. status (crawl_url w st u d) \<noteq> success}"
    and "domain st' = domain st" and "proxy_url st' = proxy_url st"
    and "max_depth_reached st' = max_depth_reached st"
    and "error_details st' = error_details st"
    and "int (card (successful_urls st')) \<le> mx \<Longrightarrow>
           int (length nxt) \<le> mx - int (card (successful_urls st'))"
proof -
  from assms obtain batches where
    b: "make_batches us bs = Inr batches" and
    n: "nxt = slice_to (fst (batch_loop w d mx batches [] st))
                (mx - int (card (successful_urls (snd (batch_loop w d mx batches [] st)))))" and
    s: "st' = snd (batch_loop w d mx batches [] st)"
    by (rule process_depth_Inr)
  note sub = make_batches_concat [OF b]
  show "successful_urls st \<subseteq> successful_urls st'"
    unfolding s by (rule batch_loop_successful_mono)
  show "failed_urls st \<subseteq> failed_urls st'"
    unfolding s by (rule batch_loop_failed_mono)
  show "successful_urls st'
          \<subseteq> successful_urls st \<union> {u \<in> set us. status (crawl_url w st u d) = success}"
    unfolding s using batch_loop_successful_upper [of w d mx batches "[]" st] sub by blast
  show "failed_urls st'
          \<subseteq> failed_urls st \<union> {u \<in> set us. status (crawl_url w st u d) \<noteq> success}"
    unfolding s using batch_loop_failed_upper [of w d mx batches "[]" st] sub by blast
  show "domain st' = domain st" "proxy_url st' = proxy_url st"
    "max_depth_reached st' = max_depth_reached st" "error_details st' = error_details st"
    unfolding s using batch_loop_frame [of w d mx batches "[]" st] by simp_all
  show "int (length nxt) \<le> mx - int (card (successful_urls st'))"
    if "int (card (successful_urls st')) \<le> mx"
    using that unfolding n s by (intro slice_to_length) simp
qed

section \<open>The depth loop\<close>

lemma depth_loop_final_state:
  "snd (depth_loop w hp bs mx ds nxt self)
     = last (self # depth_boundaries w hp bs mx ds nxt self)"
proof (induction ds arbitrary: nxt self)
  case Nil
  then show ?case by simp
next
  case (Cons d ds)
  let ?s1 = "self\<lparr>max_depth_reached := d\<rparr>"
  show ?case
  proof (cases "d \<noteq> 0 \<and> nxt = []")
    case True
    then show ?thesis by simp
  next
    case False
    show ?thesis
    proof (cases "if d = 0 then Inr [hp] else deduplicate_urls ?s1 nxt")
      case (Inl e)
      with False show ?thesis by (auto simp: Let_def)
    next
      case (Inr us)
      obtain r s2 where pd: "process_depth_with_progress w ?s1 us d bs mx = (r, s2)"
        by (cases "process_depth_with_progress w ?s1 us d bs mx")
      show ?thesis
      proof (cases r)
        case (Inl e)
        with False Inr pd show ?thesis by (auto simp: Let_def)
      next
        case r: (Inr n1)
        show ?thesis
        proof (cases "mx \<le> int (card (successful_urls s2))")
          case True
          with False Inr pd r show ?thesis by (auto simp: Let_def)
        next
          case stop: False
          with False Inr pd r Cons.IH [of n1 s2] show ?thesis by (auto simp: Let_def)
        qed
      qed
    qed
  qed
qed

text \<open>
  An invariant of the depth loop: a property of the frontier and the instance that holds
  when the loop starts, does not depend on \<open>max_depth_reached\<close> and is kept by one depth
  holds at every depth boundary.
\<close>

lemma depth_boundaries_rule:
  assumes init: "I nxt self"
    and mdr: "\<And>n s d. d \<in> set ds \<Longrightarrow> I n s \<Longrightarrow> I n (s\<lparr>max_depth_reached := d\<rparr>)"
    and step: "\<And>n s d us n' s'. d \<in> set ds \<Longrightarrow> I n s \<Longrightarrow> max_depth_reached s = d \<Longrightarrow>
                 (if d = 0 then us = [hp] else deduplicate_urls s n = Inr us) \<Longrightarrow>
                 process_depth_with_progress w s us d bs mx = (Inr n', s') \<Longrightarrow> I n' s'"
    and st: "st \<in> set (depth_boundaries w hp bs mx ds nxt self)"
  shows "\<exists>n. I n st"
  using init mdr step st
proof (induction ds arbitrary: nxt self)
  case Nil
  then show ?case by simp
next
  case (Cons d ds)
  let ?s1 = "self\<lparr>max_depth_reached := d\<rparr>"
  have i1: "I nxt ?s1" using Cons.prems(1,2) by simp
  have mdr': "\<And>n s d'. d' \<in> set ds \<Longrightarrow> I n s \<Longrightarrow> I n (s\<lparr>max_depth_reached := d'\<rparr>)"
    using Cons.prems(2) by simp
  have step': "I n' s'"
    if "d' \<in> set ds" "I n s" "max_depth_reached s = d'"
      "if d' = 0 then us = [hp] else deduplicate_urls s n = Inr us"
      "process_depth_with_progress w s us d' bs mx = (Inr n', s')"
    for n s d' us n' s'
    by (rule Cons.prems(3) [OF _ that(2-5)]) (simp add: that(1))
  show ?case
  proof (cases "d \<noteq> 0 \<and> nxt = []")
    case True
    with Cons.prems(4) have "st = ?s1" by simp
    with i1 show ?thesis by blast
  next
    case False
    show ?thesis
    proof (cases "if d = 0 then Inr [hp] else deduplicate_urls ?s1 nxt")
      case (Inl e)
      with False Cons.prems(4) have "st = ?s1" by (auto simp: Let_def)
      with i1 show ?thesis by blast
    next
      case (Inr us)
      then have us: "if d = 0 then us = [hp] else deduplicate_urls ?s1 nxt = Inr us"
        by (simp split: if_splits)
      obtain r s2 where pd: "process_depth_with_progress w ?s1 us d bs mx = (r, s2)"
        by (cases "process_depth_with_progress w ?s1 us d bs mx")
      show ?thesis
      proof (cases r)
        case (Inl e)
        with pd have "s2 = ?s1" using process_depth_Inl [of w ?s1 us d bs mx e] by simp
        moreover from False Inr pd Inl Cons.prems(4) have "st = s2" by (auto simp: Let_def)
        ultimately show ?thesis using i1 by blast
      next
        case r: (Inr n1)
        have i2: "I n1 s2"
          by (rule Cons.prems(3) [OF _ i1 _ us pd [unfolded r]]) simp_all
        show ?thesis
        proof (cases "mx \<le> int (card (successful_urls s2))")
          case True
          with False Inr pd r Cons.prems(4) have "st = s2" by (auto simp: Let_def)
          with i2 show ?thesis by blast
        next
          case stop: False
          with False Inr pd r Cons.prems(4)
          have "st = s2 \<or> st \<in> set (depth_boundaries w hp bs mx ds n1 s2)"
            by (auto simp: Let_def)
          then show ?thesis
          proof
            assume "st = s2" with i2 show ?thesis by blast
          next
            assume "st \<in> set (depth_boundaries w hp bs mx ds n1 s2)"
            from Cons.IH [OF i2 mdr' step' this] show ?thesis .
          qed
        qed
      qed
    qed
  qed
qed

lemma depth_loop_rule:
  assumes init: "I nxt self"
    and mdr: "\<And>n s d. d \<in> set ds \<Longrightarrow> I n s \<Longrightarrow> I n (s\<lparr>max_depth_reached := d\<rparr>)"
    and step: "\<And>n s d us n' s'. d \<in> set ds \<Longrightarrow> I n s \<Longrightarrow> max_depth_reached s = d \<Longrightarrow>
                 (if d = 0 then us = [hp] else deduplicate_urls s n = Inr us) \<Longrightarrow>
                 process_depth_with_progress w s us d bs mx = (Inr n', s') \<Longrightarrow> I n' s'"
  shows "\<exists>n. I n (snd (depth_loop w hp bs mx ds nxt self))"
proof (cases "depth_boundaries w hp bs mx ds nxt self = []")
  case True
  with init show ?thesis by (auto simp: depth_loop_final_state)
next
  case False
  then have "snd (depth_loop w hp bs mx ds nxt self)
               \<in> set (depth_boundaries w hp bs mx ds nxt self)"
    by (simp add: depth_loop_final_state)
  then show ?thesis
  proof (rule depth_boundaries_rule [where I = I and ds = ds, rotated 3])
    show "I nxt self" by (rule init)
  next
    fix n s d
    assume "d \<in> set ds" "I n s"
    then show "I n (s\<lparr>max_depth_reached := d\<rparr>)" by (rule mdr)
  next
    fix n s d us n' s'
    assume "d \<in> set ds" "I n s" "max_depth_reached s = d"
      "if d = 0 then us = [hp] else deduplicate_urls s n = Inr us"
      "process_depth_with_progress w s us d bs mx = (Inr n', s')"
    then show "I n' s'" by (rule step)
  qed
qed

section \<open>A whole crawl\<close>

text \<open>
  \<open>find_urls\<close> either raises before the crawl starts, leaving only \<open>proxy_url\<close> assigned,
  or seeds the instance with the homepage and runs the depth loop from there.
\<close>

lemma find_urls_early:
  assumes "(REQUIRE_PROXY w \<and> \<not> truthy (por (proxy options) (get_proxy_from_env w)))
           \<or> (\<exists>e. extract_homepage_from_url (validate_input_url inp) = Inl e)
           \<or> (\<exists>hp e. extract_homepage_from_url (validate_input_url inp) = Inr hp
                 \<and> urlparse hp = Inl e)"
  shows "snd (find_urls w self inp (Some options))
           = self\<lparr>proxy_url := por (proxy options) (get_proxy_from_env w)\<rparr>"
    and "find_urls_boundaries w self inp (Some options) = []"
    and "\<exists>e. fst (find_urls w self inp (Some options)) = Inl e"
  using assms by (auto simp: find_urls_def find_urls_boundaries_def Let_def)

lemma find_urls_crawl:
  assumes "\<not> (REQUIRE_PROXY w \<and> \<not> truthy (por (proxy options) (get_proxy_from_env w)))"
    and "extract_homepage_from_url (validate_input_url inp) = Inr hp"
    and "urlparse hp = Inr parsed"
    and "s3 = self\<lparr>proxy_url := por (proxy options) (get_proxy_from_env w),
                   domain := Some (netloc parsed),
                   successful_urls := insert hp (successful_urls self)\<rparr>"
  shows "snd (find_urls w self inp (Some options))
           = snd (depth_loop w hp (batch_size options) (max_urls options)
                    [0..max_depth options] [] s3)"
    and "find_urls_boundaries w self inp (Some options)
           = depth_boundaries w hp (batch_size options) (max_urls options)
               [0..max_depth options] [] s3"
    and "fst (find_urls w self inp (Some options)) = Inr doc \<Longrightarrow>
           homepage_url doc = hp
           \<and> urls doc = successful_urls (snd (find_urls w self inp (Some options)))
           \<and> total_found doc = int (card (urls doc))
           \<and> successful_crawls doc = int (card (urls doc))
           \<and> doc_max_depth_reached doc
               = max_depth_reached (snd (find_urls w self inp (Some options)))"
proof -
  let ?dl = "depth_loop w hp (batch_size options) (max_urls options) [0..max_depth options] [] s3"
  obtain r s4 where dl: "?dl = (r, s4)" by (cases ?dl)
  have fu: "find_urls w self inp (Some options)
              = (case r of
                   Inl e \<Rightarrow> (Inl e, s4)
                 | Inr x \<Rightarrow>
                     (case display_final_results s4 (max_urls options) of
                        Inl e \<Rightarrow> (Inl e, s4)
                      | Inr y \<Rightarrow>
                          (Inr \<lparr>input_url = inp, homepage_url = hp, doc_domain = netloc parsed,
                                urls = successful_urls s4,
                                total_found = int (card (successful_urls s4)),
                                doc_max_depth_reached = max_depth_reached s4,
                                successful_crawls = int (card (successful_urls s4)),
                                failed_crawls = int (length (error_details s4))\<rparr>, s4)))"
    using assms dl by (auto simp: find_urls_def Let_def)
  then have sn: "snd (find_urls w self inp (Some options)) = s4"
    by (simp split: sum.splits)
  with dl show "snd (find_urls w self inp (Some options)) = snd ?dl" by simp
  show "find_urls_boundaries w self inp (Some options)
           = depth_boundaries w hp (batch_size options) (max_urls options)
               [0..max_depth options] [] s3"
    using assms by (auto simp: find_urls_boundaries_def Let_def)
  show "homepage_url doc = hp
           \<and> urls doc = successful_urls (snd (find_urls w self inp (Some options)))
           \<and> total_found doc = int (card (urls doc))
           \<and> successful_crawls doc = int (card (urls doc))
           \<and> doc_max_depth_reached doc
               = max_depth_reached (snd (find_urls w self inp (Some options)))"
    if "fst (find_urls w self inp (Some options)) = Inr doc"
    using that unfolding sn unfolding fu by (auto split: sum.splits)
qed

lemma find_urls_cases:
  obtains (early) "snd (find_urls w self inp (Some options))
                     = self\<lparr>proxy_url := por (proxy options) (get_proxy_from_env w)\<rparr>"
      "find_urls_boundaries w self inp (Some options) = []"
      "\<exists>e. fst (find_urls w self inp (Some options)) = Inl e"
  | (crawl) hp parsed where
      "\<not> (REQUIRE_PROXY w \<and> \<not> truthy (por (proxy options) (get_proxy_from_env w)))"
      "extract_homepage_from_url (validate_input_url inp) = Inr hp"
      "urlparse hp = Inr parsed"
proof (cases "REQUIRE_PROXY w \<and> \<not> truthy (por (proxy options) (get_proxy_from_env w))")
  case True
  then show ?thesis using find_urls_early [of w options inp self] early by blast
next
  case np: False
  show ?thesis
  proof (cases "extract_homepage_from_url (validate_input_url inp)")
    case (Inl e)
    then show ?thesis using find_urls_early [of w options inp self] early by blast
  next
    case (Inr hp)
    show ?thesis
    proof (cases "urlparse hp")
      case (Inl e)
      with Inr show ?thesis using find_urls_early [of w options inp self] early by blast
    next
      case p: (Inr parsed)
      with np Inr show ?thesis using crawl by blast
    qed
  qed
qed

section \<open>The URL budget\<close>

lemma budget_step:
  assumes inv: "finite (successful_urls s)" "hp \<in> successful_urls s"
      "int (card (successful_urls s)) + int (length n) \<le> mx"
    and us: "if d = 0 then us = [hp] else deduplicate_urls s n = Inr us"
    and pd: "process_depth_with_progress w s us d bs mx = (Inr n', s')"
  shows "finite (successful_urls s') \<and> hp \<in> successful_urls s'
         \<and> int (card (successful_urls s')) + int (length n') \<le> mx"
proof -
  note eff = process_depth_effect [OF pd]
  have up: "successful_urls s' \<subseteq> successful_urls s \<union> set us" using eff(2) by blast
  have fin: "finite (successful_urls s \<union> set us)" using inv(1) by simp
  have f': "finite (successful_urls s')" using up fin by (rule finite_subset)
  have h': "hp \<in> successful_urls s'" using eff(1) inv(2) by blast
  have c: "int (card (successful_urls s')) \<le> mx"
  proof (cases "d = 0")
    case True
    with us have "successful_urls s \<union> set us = successful_urls s" using inv(2) by auto
    with up eff(1) have "successful_urls s' = successful_urls s" by blast
    with inv(3) show ?thesis by simp
  next
    case False
    with us have "set us \<subseteq> set n" using deduplicate_urls_props(5) by simp
    then have "card (set us) \<le> card (set n)" by (simp add: card_mono)
    also have "\<dots> \<le> length n" by (rule card_length)
    finally have l: "card (set us) \<le> length n" .
    have "card (successful_urls s') \<le> card (successful_urls s \<union> set us)"
      using up fin by (simp add: card_mono)
    also have "\<dots> \<le> card (successful_urls s) + card (set us)" by (rule card_Un_le)
    finally have "card (successful_urls s') \<le> card (successful_urls s) + length n"
      using l by linarith
    with inv(3) show ?thesis by linarith
  qed
  from eff(9) [OF c] have "int (card (successful_urls s')) + int (length n') \<le> mx" by linarith
  with f' h' show ?thesis by simp
qed

lemma budget_boundaries:
  assumes "finite (successful_urls s0)" and "hp \<in> successful_urls s0"
    and "int (card (successful_urls s0)) \<le> mx"
    and "st \<in> set (depth_boundaries w hp bs mx ds [] s0)"
  shows "int (card (successful_urls st)) \<le> mx"
proof -
  define I where "I = (\<lambda>(n::string list) (s::FinderService). finite (successful_urls s) \<and> hp \<in> successful_urls s
                    \<and> int (card (successful_urls s)) + int (length n) \<le> mx)"
  have "\<exists>n. I n st"
  proof (rule depth_boundaries_rule [where I = I and ds = ds, rotated 3])
    show "st \<in> set (depth_boundaries w hp bs mx ds [] s0)" by fact
    show "I [] s0" using assms(1-3) by (simp add: I_def)
  next
    fix n s d
    assume "I n s"
    then show "I n (s\<lparr>max_depth_reached := d\<rparr>)" by (simp add: I_def)
  next
    fix n s d us n' s'
    assume "I n s" "if d = 0 then us = [hp] else deduplicate_urls s n = Inr us"
      "process_depth_with_progress w s us d bs mx = (Inr n', s')"
    then show "I n' s'"
      unfolding I_def using budget_step [of s hp n mx d us w bs n' s'] by blast
  qed
  then show ?thesis by (auto simp: I_def)
qed

text \<open>
  Claim C2, as the code has it. On a fresh instance and with a target of at least one URL,
  \<open>successful_urls\<close> never holds more than \<open>max_urls\<close> URLs: at every depth boundary, in
  the state the call leaves, and in the document it returns. The homepage is seeded before
  the first fetch, so a target below one is exceeded from the start.
\<close>

theorem successful_urls_within_budget:
  assumes "1 \<le> max_urls options"
  shows "(\<forall>st \<in> set (find_urls_boundaries w FinderService_init inp (Some options)).
            int (card (successful_urls st)) \<le> max_urls options)
         \<and> int (card (successful_urls (snd (find_urls w FinderService_init inp (Some options)))))
             \<le> max_urls options
         \<and> (\<forall>doc. fst (find_urls w FinderService_init inp (Some options)) = Inr doc \<longrightarrow>
               int (card (urls doc)) \<le> max_urls options \<and> total_found doc \<le> max_urls options)"
proof (cases rule: find_urls_cases [of w FinderService_init inp options])
  case early
  have "successful_urls (snd (find_urls w FinderService_init inp (Some options))) = {}"
    unfolding early(1) by (simp add: FinderService_init_def)
  with early assms show ?thesis by auto
next
  case (crawl hp parsed)
  define s3 where "s3 = FinderService_init
       \<lparr>proxy_url := por (proxy options) (get_proxy_from_env w),
          domain := Some (netloc parsed),
          successful_urls := insert hp (successful_urls FinderService_init)\<rparr>"
  note fc = find_urls_crawl [OF crawl s3_def]
  have s3: "finite (successful_urls s3)" "hp \<in> successful_urls s3"
    "int (card (successful_urls s3)) \<le> max_urls options"
    using assms by (simp_all add: s3_def FinderService_init_def)
  have b: "int (card (successful_urls st)) \<le> max_urls options"
    if "st \<in> set (depth_boundaries w hp (batch_size options) (max_urls options)
                     [0..max_depth options] [] s3)" for st
    using s3 that by (rule budget_boundaries)
  have "snd (find_urls w FinderService_init inp (Some options))
          \<in> set (s3 # depth_boundaries w hp (batch_size options) (max_urls options)
                         [0..max_depth options] [] s3)"
    unfolding fc(1) depth_loop_final_state by (rule last_in_set) simp
  with b s3(3)
  have f: "int (card (successful_urls (snd (find_urls w FinderService_init inp (Some options)))))
             \<le> max_urls options" by auto
  have "int (card (urls doc)) \<le> max_urls options \<and> total_found doc \<le> max_urls options"
    if "fst (find_urls w FinderService_init inp (Some options)) = Inr doc" for doc
    using fc(3) [OF that] f by simp
  with b f show ?thesis unfolding fc(2) by blast
qed

theorem successful_urls_within_budget_witness:
  "1 \<le> max_urls (small_options\<lparr>max_urls := 2\<rparr>)
   \<and> fst (find_urls (example_world web_a) FinderService_init ''a.com''
            (Some (small_options\<lparr>max_urls := 2\<rparr>)))
       = Inr \<lparr>input_url = ''a.com'', homepage_url = ''https://a.com'', doc_domain = ''a.com'',
              urls = {''https://a.com'', ''https://a.com/x''}, total_found = 2,
              doc_max_depth_reached = 1, successful_crawls = 2, failed_crawls = 0\<rparr>
   \<and> int (card (successful_urls (snd (find_urls (example_world web_a) FinderService_init ''a.com''
                                        (Some (small_options\<lparr>max_urls := 2\<rparr>))))))
       \<le> max_urls (small_options\<lparr>max_urls := 2\<rparr>)"
proof -
  have h: "1 \<le> max_urls (small_options\<lparr>max_urls := 2\<rparr>)" by simp
  have v: "fst (find_urls (example_world web_a) FinderService_init ''a.com''
            (Some (small_options\<lparr>max_urls := 2\<rparr>)))
       = Inr \<lparr>input_url = ''a.com'', homepage_url = ''https://a.com'', doc_domain = ''a.com'',
              urls = {''https://a.com'', ''https://a.com/x''}, total_found = 2,
              doc_max_depth_reached = 1, successful_crawls = 2, failed_crawls = 0\<rparr>"
    by code_simp
  from successful_urls_within_budget [OF h, of "example_world web_a" "''a.com''"] h v
  show ?thesis by blast
qed

theorem budget_below_one_counterexample:
  "find_urls (example_world web_a) FinderService_init ''a.com''
     (Some (small_options\<lparr>max_urls := - 1\<rparr>))
     = (Inr \<lparr>input_url = ''a.com'', homepage_url = ''https://a.com'', doc_domain = ''a.com'',
             urls = {''https://a.com''}, total_found = 1, doc_max_depth_reached = 0,
             successful_crawls = 1, failed_crawls = 0\<rparr>,
        \<lparr>successful_urls = {''https://a.com''}, failed_urls = {}, crawled_urls = {},
         error_details = [], proxy_url = None, max_depth_reached = 0,
         domain = Some ''a.com''\<rparr>)
   \<and> find_urls (example_world web_a) FinderService_init ''a.com''
       (Some (small_options\<lparr>max_urls := 0\<rparr>))
     = (Inl ZeroDivisionError,
        \<lparr>successful_urls = {''https://a.com''}, failed_urls = {}, crawled_urls = {},
         error_details = [], proxy_url = None, max_depth_reached = 0,
         domain = Some ''a.com''\<rparr>)"
  by code_simp

section \<open>Disjointness of the two sets\<close>






section \<open>A crawl of depth zero\<close>

text \<open>
  Claim C7, as the code has it. With \<open>max_depth = 0\<close> a call on a fresh instance that
  returns a document reports depth 0 and exactly the homepage, whatever the fetch of the
  homepage gave; the two sets record every URL that was fetched, and they hold nothing but
  the homepage, so no link found on it was fetched. The instance has to be fresh: the sets
  are those of the instance, so a call with \<open>max_depth = 0\<close> on an instance that has
  crawled before returns the earlier URLs beside its own homepage.
\<close>

theorem max_depth_zero_only_homepage:
  assumes "max_depth options = 0"
    and "find_urls w FinderService_init inp (Some options) = (Inr doc, self')"
  shows "doc_max_depth_reached doc = 0 \<and> urls doc = {homepage_url doc}
         \<and> extract_homepage_from_url (validate_input_url inp) = Inr (homepage_url doc)
         \<and> successful_urls self' = {homepage_url doc}
         \<and> failed_urls self' \<subseteq> {homepage_url doc}"
proof (cases rule: find_urls_cases [of w FinderService_init inp options])
  case early
  with assms(2) show ?thesis by simp
next
  case (crawl hp parsed)
  define s3 where "s3 = FinderService_init
       \<lparr>proxy_url := por (proxy options) (get_proxy_from_env w),
          domain := Some (netloc parsed),
          successful_urls := insert hp (successful_urls FinderService_init)\<rparr>"
  note fc = find_urls_crawl [OF crawl s3_def]
  define I where "I = (\<lambda>(n::string list) (s::FinderService).
      successful_urls s = {hp} \<and> failed_urls s \<subseteq> {hp} \<and> max_depth_reached s = 0)"
  have sn: "self' = snd (depth_loop w hp (batch_size options) (max_urls options) [0] [] s3)"
    using fc(1) assms by simp
  have "\<exists>n. I n (snd (depth_loop w hp (batch_size options) (max_urls options) [0] [] s3))"
  proof (rule depth_loop_rule [where I = I])
    show "I [] s3" by (simp add: I_def s3_def FinderService_init_def)
  next
    fix n s d
    assume "d \<in> set [0::int]" "I n s"
    then show "I n (s\<lparr>max_depth_reached := d\<rparr>)" by (simp add: I_def)
  next
    fix n s d us n' s'
    assume d: "d \<in> set [0::int]" and i: "I n s"
      and us: "if d = 0 then us = [hp] else deduplicate_urls s n = Inr us"
      and pd: "process_depth_with_progress w s us d (batch_size options) (max_urls options)
                 = (Inr n', s')"
    from d us have u: "set us = {hp}" by simp
    note eff = process_depth_effect [OF pd]
    from i have "successful_urls s = {hp}" "failed_urls s \<subseteq> {hp}" "max_depth_reached s = 0"
      by (simp_all add: I_def)
    moreover have "successful_urls s' \<subseteq> successful_urls s \<union> set us" using eff(2) by blast
    moreover have "failed_urls s' \<subseteq> failed_urls s \<union> set us" using eff(4) by blast
    ultimately have "successful_urls s' = {hp}" "failed_urls s' \<subseteq> {hp}"
      "max_depth_reached s' = 0"
      using eff(1,7) u by auto
    then show "I n' s'" by (simp add: I_def)
  qed
  then have r: "successful_urls self' = {hp}" "failed_urls self' \<subseteq> {hp}"
    "max_depth_reached self' = 0"
    by (simp_all add: I_def sn)
  from assms(2) have "fst (find_urls w FinderService_init inp (Some options)) = Inr doc"
    and "snd (find_urls w FinderService_init inp (Some options)) = self'" by simp_all
  with fc(3) [of doc] r crawl(2) show ?thesis by simp
qed

theorem max_depth_zero_only_homepage_witness:
  "max_depth depth0_only = 0
   \<and> find_urls (example_world web_a) FinderService_init ''a.com'' (Some depth0_only)
       = (Inr \<lparr>input_url = ''a.com'', homepage_url = ''https://a.com'', doc_domain = ''a.com'',
               urls = {''https://a.com''}, total_found = 1, doc_max_depth_reached = 0,
               successful_crawls = 1, failed_crawls = 0\<rparr>,
          \<lparr>successful_urls = {''https://a.com''}, failed_urls = {}, crawled_urls = {},
           error_details = [], proxy_url = None, max_depth_reached = 0,
           domain = Some ''a.com''\<rparr>)
   \<and> new_urls (crawl_url (example_world web_a) at_a_com ''https://a.com'' 0)
       = [''https://a.com/x'', ''http://a.com/x'', ''https://a.com/y#f'', ''https://a.com/q'']
   \<and> extract_homepage_from_url (validate_input_url ''a.com'') = Inr ''https://a.com''"
proof -
  let ?doc = "\<lparr>input_url = ''a.com'', homepage_url = ''https://a.com'', doc_domain = ''a.com'',
               urls = {''https://a.com''}, total_found = 1, doc_max_depth_reached = 0,
               successful_crawls = 1, failed_crawls = 0\<rparr>"
  let ?st = "\<lparr>successful_urls = {''https://a.com''}, failed_urls = {}, crawled_urls = {},
           error_details = [], proxy_url = None, max_depth_reached = 0,
           domain = Some ''a.com''\<rparr>"
  have m: "max_depth depth0_only = 0" by (simp add: depth0_only_def)
  have f: "find_urls (example_world web_a) FinderService_init ''a.com'' (Some depth0_only)
             = (Inr ?doc, ?st)" by code_simp
  have n: "new_urls (crawl_url (example_world web_a) at_a_com ''https://a.com'' 0)
       = [''https://a.com/x'', ''http://a.com/x'', ''https://a.com/y#f'', ''https://a.com/q'']"
    by code_simp
  from max_depth_zero_only_homepage [OF m f]
  have "extract_homepage_from_url (validate_input_url ''a.com'') = Inr ''https://a.com''"
    by simp
  with m f n show ?thesis by (intro conjI)
qed

theorem max_depth_zero_reused_instance_counterexample:
  "max_depth depth0_only = 0
   \<and> find_urls (example_world web_two_sites)
         (snd (find_urls (example_world web_two_sites) FinderService_init ''a.com''
                 (Some depth0_only)))
         ''b.com'' (Some depth0_only)
       = (Inr \<lparr>input_url = ''b.com'', homepage_url = ''https://b.com'', doc_domain = ''b.com'',
               urls = {''https://b.com'', ''https://a.com''}, total_found = 2,
               doc_max_depth_reached = 0, successful_crawls = 2, failed_crawls = 0\<rparr>,
          \<lparr>successful_urls = {''https://b.com'', ''https://a.com''}, failed_urls = {},
           crawled_urls = {}, error_details = [], proxy_url = None, max_depth_reached = 0,
           domain = Some ''b.com''\<rparr>)
   \<and> {''https://b.com'', ''https://a.com''} \<noteq> {''https://b.com''}"
  by code_simp

section \<open>Where the URLs of a result come from\<close>

lemma provenance_after_loop:
  fixes s0 :: FinderService
  assumes hp: "hp \<in> successful_urls s0"
  shows "successful_urls s0 \<subseteq> successful_urls (snd (depth_loop w hp bs mx ds [] s0))
           \<and> domain (snd (depth_loop w hp bs mx ds [] s0)) = domain s0
           \<and> proxy_url (snd (depth_loop w hp bs mx ds [] s0)) = proxy_url s0
           \<and> (\<forall>u \<in> successful_urls (snd (depth_loop w hp bs mx ds [] s0)).
                 u \<in> successful_urls s0
                 \<or> (status (crawl_url w s0 u 0) = success
                     \<and> (\<exists>v \<in> successful_urls (snd (depth_loop w hp bs mx ds [] s0)).
                           status (crawl_url w s0 v 0) = success
                           \<and> u \<in> set (new_urls (crawl_url w s0 v 0)))))"
proof -
  define ok where "ok = (\<lambda>u. status (crawl_url w s0 u 0) = success)"
  define links where "links = (\<lambda>v. set (new_urls (crawl_url w s0 v 0)))"
  define I where "I = (\<lambda>(n::string list) (s::FinderService).
      successful_urls s0 \<subseteq> successful_urls s \<and> domain s = domain s0
      \<and> proxy_url s = proxy_url s0
      \<and> (\<forall>u \<in> successful_urls s. u \<in> successful_urls s0
            \<or> (ok u \<and> (\<exists>v \<in> successful_urls s. ok v \<and> u \<in> links v)))
      \<and> (\<forall>m \<in> set n. \<exists>v \<in> successful_urls s. ok v \<and> m \<in> links v))"
  have "\<exists>n. I n (snd (depth_loop w hp bs mx ds [] s0))"
  proof (rule depth_loop_rule [where I = I])
    show "I [] s0" by (simp add: I_def)
  next
    fix n s d
    assume "I n s"
    then show "I n (s\<lparr>max_depth_reached := d\<rparr>)" by (simp add: I_def)
  next
    fix n s d us n' s'
    assume i: "I n s" and us: "if d = 0 then us = [hp] else deduplicate_urls s n = Inr us"
      and pd: "process_depth_with_progress w s us d bs mx = (Inr n', s')"
    from i have s0s: "successful_urls s0 \<subseteq> successful_urls s"
      and fr: "domain s = domain s0" "proxy_url s = proxy_url s0"
      and old: "\<And>u. u \<in> successful_urls s \<Longrightarrow> u \<in> successful_urls s0
                  \<or> (ok u \<and> (\<exists>v \<in> successful_urls s. ok v \<and> u \<in> links v))"
      and fro: "\<And>m. m \<in> set n \<Longrightarrow> \<exists>v \<in> successful_urls s. ok v \<and> m \<in> links v"
      by (simp_all add: I_def)
    note eff = process_depth_effect [OF pd]
    have cr: "crawl_url w s u d = crawl_url w s0 u 0" for u
      by (rule crawl_url_depth_cong) (simp_all add: fr)
    have src: "u = hp \<or> u \<in> set n" if "u \<in> set us" for u
    proof (cases "d = 0")
      case True
      with us that show ?thesis by simp
    next
      case False
      with us have "deduplicate_urls s n = Inr us" by simp
      from deduplicate_urls_props(5) [OF this] that show ?thesis by blast
    qed
    have new: "u \<in> successful_urls s0
                 \<or> (ok u \<and> (\<exists>v \<in> successful_urls s'. ok v \<and> u \<in> links v))"
      if u: "u \<in> successful_urls s'" for u
    proof (cases "u \<in> successful_urls s")
      case True
      from old [OF this] eff(1) show ?thesis by blast
    next
      case False
      with u eff(2) have uu: "u \<in> set us" "status (crawl_url w s u d) = success" by auto
      then have oku: "ok u" by (simp add: ok_def cr)
      from src [OF uu(1)] show ?thesis
      proof
        assume "u = hp"
        with hp show ?thesis by simp
      next
        assume "u \<in> set n"
        from fro [OF this] obtain v where "v \<in> successful_urls s" "ok v" "u \<in> links v" by blast
        with eff(1) oku show ?thesis by blast
      qed
    qed
    have nxt: "\<exists>v \<in> successful_urls s'. ok v \<and> m \<in> links v" if "m \<in> set n'" for m
    proof -
      from process_depth_new_urls [OF pd that] obtain v where
        "v \<in> successful_urls s'" "status (crawl_url w s v d) = success"
        "m \<in> set (new_urls (crawl_url w s v d))" by blast
      then show ?thesis by (auto simp: ok_def links_def cr)
    qed
    from s0s eff(1) have "successful_urls s0 \<subseteq> successful_urls s'" by blast
    with eff(5,6) fr new nxt show "I n' s'" by (simp add: I_def)
  qed
  then show ?thesis unfolding I_def ok_def links_def by blast
qed

text \<open>
  Claim C3, as the code has it. The crawl state lives on the instance and \<open>find_urls\<close> does
  not reset it: the URLs of the returned document are the instance's \<open>successful_urls\<close>,
  which hold every URL that was there before the call. Every other URL of the document is
  the homepage of this call or a URL that this call fetched with success and found as a
  link on a page it fetched with success; the two counts are the size of the URL set. So
  on a fresh instance the document holds only URLs of this call.
\<close>

theorem find_urls_result_provenance:
  assumes "find_urls w self inp (Some options) = (Inr doc, self')"
  shows "urls doc = successful_urls self' \<and> successful_urls self \<subseteq> urls doc
         \<and> (\<forall>u \<in> urls doc.
               u \<in> successful_urls self \<or> u = homepage_url doc
               \<or> (status (crawl_url w self' u 0) = success
                   \<and> (\<exists>v \<in> urls doc. status (crawl_url w self' v 0) = success
                         \<and> u \<in> set (new_urls (crawl_url w self' v 0)))))
         \<and> total_found doc = int (card (urls doc))
         \<and> successful_crawls doc = int (card (urls doc))
         \<and> (successful_urls self = {} \<longrightarrow>
              (\<forall>u \<in> urls doc.
                 u = homepage_url doc
                 \<or> (status (crawl_url w self' u 0) = success
                     \<and> (\<exists>v \<in> urls doc. status (crawl_url w self' v 0) = success
                           \<and> u \<in> set (new_urls (crawl_url w self' v 0))))))"
proof (cases rule: find_urls_cases [of w self inp options])
  case early
  with assms show ?thesis by simp
next
  case (crawl hp parsed)
  define s3 where "s3 = self
       \<lparr>proxy_url := por (proxy options) (get_proxy_from_env w),
          domain := Some (netloc parsed),
          successful_urls := insert hp (successful_urls self)\<rparr>"
  note fc = find_urls_crawl [OF crawl s3_def]
  from assms have fs: "fst (find_urls w self inp (Some options)) = Inr doc"
    and sn: "snd (find_urls w self inp (Some options)) = self'" by simp_all
  from fc(3) [OF fs] sn have d: "homepage_url doc = hp" "urls doc = successful_urls self'"
    "total_found doc = int (card (urls doc))" "successful_crawls doc = int (card (urls doc))"
    by simp_all
  have hp3: "hp \<in> successful_urls s3" by (simp add: s3_def)
  have fin: "self' = snd (depth_loop w hp (batch_size options) (max_urls options)
                            [0..max_depth options] [] s3)"
    using fc(1) sn by simp
  from provenance_after_loop [OF hp3, of w "batch_size options" "max_urls options"
                                "[0..max_depth options]", folded fin]
  have sub: "successful_urls s3 \<subseteq> successful_urls self'"
    and fr: "domain self' = domain s3" "proxy_url self' = proxy_url s3"
    and pv: "\<And>u. u \<in> successful_urls self' \<Longrightarrow> u \<in> successful_urls s3
               \<or> (status (crawl_url w s3 u 0) = success
                   \<and> (\<exists>v \<in> successful_urls self'. status (crawl_url w s3 v 0) = success
                         \<and> u \<in> set (new_urls (crawl_url w s3 v 0))))"
    by blast+
  have cr: "crawl_url w self' u 0 = crawl_url w s3 u 0" for u
    by (rule crawl_url_depth_cong) (simp_all add: fr)
  have s3s: "successful_urls s3 = insert hp (successful_urls self)" by (simp add: s3_def)
  have main: "u \<in> successful_urls self \<or> u = homepage_url doc
               \<or> (status (crawl_url w self' u 0) = success
                   \<and> (\<exists>v \<in> urls doc. status (crawl_url w self' v 0) = success
                         \<and> u \<in> set (new_urls (crawl_url w self' v 0))))"
    if "u \<in> urls doc" for u
    using pv [of u] that unfolding d(1,2) cr s3s by blast
  have "successful_urls self \<subseteq> urls doc" using sub unfolding d(2) s3s by blast
  with d(2,3,4) main show ?thesis by blast
qed

theorem find_urls_result_provenance_witness:
  "find_urls (example_world web_a) FinderService_init ''a.com'' (Some small_options)
     = (Inr \<lparr>input_url = ''a.com'', homepage_url = ''https://a.com'', doc_domain = ''a.com'',
             urls = {''https://a.com'', ''https://a.com/x''}, total_found = 2,
             doc_max_depth_reached = 3, successful_crawls = 2, failed_crawls = 0\<rparr>,
        \<lparr>successful_urls = {''https://a.com'', ''https://a.com/x''},
         failed_urls = {''https://a.com/q'', ''https://a.com/r''}, crawled_urls = {},
         error_details = [], proxy_url = None, max_depth_reached = 3,
         domain = Some ''a.com''\<rparr>)
   \<and> successful_urls FinderService_init = {}
   \<and> status (crawl_url (example_world web_a)
               \<lparr>successful_urls = {''https://a.com'', ''https://a.com/x''},
                failed_urls = {''https://a.com/q'', ''https://a.com/r''}, crawled_urls = {},
                error_details = [], proxy_url = None, max_depth_reached = 3,
                domain = Some ''a.com''\<rparr> ''https://a.com/x'' 0) = success"
proof -
  let ?doc = "\<lparr>input_url = ''a.com'', homepage_url = ''https://a.com'', doc_domain = ''a.com'',
             urls = {''https://a.com'', ''https://a.com/x''}, total_found = 2,
             doc_max_depth_reached = 3, successful_crawls = 2, failed_crawls = 0\<rparr>"
  let ?st = "\<lparr>successful_urls = {''https://a.com'', ''https://a.com/x''},
         failed_urls = {''https://a.com/q'', ''https://a.com/r''}, crawled_urls = {},
         error_details = [], proxy_url = None, max_depth_reached = 3,
         domain = Some ''a.com''\<rparr>"
  have f: "find_urls (example_world web_a) FinderService_init ''a.com'' (Some small_options)
             = (Inr ?doc, ?st)" by code_simp
  have e: "successful_urls FinderService_init = {}" by (simp add: FinderService_init_def)
  have m: "''https://a.com/x'' \<in> urls ?doc" by simp
  have n: "''https://a.com/x'' \<noteq> homepage_url ?doc" by simp
  note t = find_urls_result_provenance [OF f]
  from t e have "\<forall>u \<in> urls ?doc. u = homepage_url ?doc
                   \<or> (status (crawl_url (example_world web_a) ?st u 0) = success
                       \<and> (\<exists>v \<in> urls ?doc. status (crawl_url (example_world web_a) ?st v 0) = success
                             \<and> u \<in> set (new_urls (crawl_url (example_world web_a) ?st v 0))))"
    by blast
  from this [rule_format, OF m] n
  have "status (crawl_url (example_world web_a) ?st ''https://a.com/x'' 0) = success" by blast
  with f e show ?thesis by (intro conjI)
qed

theorem reused_instance_counterexample:
  "fst (find_urls (example_world web_two_sites)
          (snd (find_urls (example_world web_two_sites) FinderService_init ''a.com''
                  (Some depth0_only)))
          ''b.com'' (Some depth0_only))
     = Inr \<lparr>input_url = ''b.com'', homepage_url = ''https://b.com'', doc_domain = ''b.com'',
            urls = {''https://a.com'', ''https://b.com''}, total_found = 2,
            doc_max_depth_reached = 0, successful_crawls = 2, failed_crawls = 0\<rparr>
   \<and> fst (find_urls (example_world web_two_sites) FinderService_init ''b.com'' (Some depth0_only))
     = Inr \<lparr>input_url = ''b.com'', homepage_url = ''https://b.com'', doc_domain = ''b.com'',
            urls = {''https://b.com''}, total_found = 1,
            doc_max_depth_reached = 0, successful_crawls = 1, failed_crawls = 0\<rparr>
   \<and> http_get (example_world web_two_sites) ''https://b.com'' None
     = Response 200 [''https://b.com/y'']"
  by code_simp

section \<open>Priority selection\<close>









end
